theory Spec2Isabelle
  imports Main
begin

section \<open>Data model of \<^verbatim>\<open>src/visual.ts\<close>\<close>

text \<open>
  The visual keeps its filter values as JavaScript objects that are shared: the object
  stored in a level's \<^verbatim>\<open>values\<close> array is the very object that sits in its parents'
  \<^verbatim>\<open>children\<close> arrays, and every operation mutates it in place. The model makes the
  sharing explicit with a store: a \<^emph>\<open>reference\<close> \<open>'r\<close> names an object, and the store
  maps each reference to the object's current fields. Arrays of objects are lists of
  references.

  A selection identity of the host is the result of
  \<^verbatim>\<open>createSelectionIdBuilder().withCategory(category, index).createSelectionId()\<close>;
  the host is not part of the repository, so a token is modelled by the arguments of the
  call that minted it.
\<close>

text \<open>
  A column of the data view (\<^verbatim>\<open>DataViewCategoryColumn\<close>): \<^verbatim>\<open>source.displayName\<close>,
  \<^verbatim>\<open>source.queryName\<close> and the cells. A cell is \<open>None\<close> for \<^verbatim>\<open>null\<close>/\<^verbatim>\<open>undefined\<close> and
  \<open>Some s\<close> for a value whose \<^verbatim>\<open>String(value)\<close> is \<open>s\<close>.
\<close>

record DataViewCategoryColumn =
  displayName :: "string option"
  queryName :: "string option"
  col_values :: "string option list"

datatype SelectionId = SelectionId DataViewCategoryColumn nat

text \<open>
  \<^verbatim>\<open>interface FilterValue\<close>. The field \<^verbatim>\<open>value\<close> is \<open>value'\<close> here. The optional
  \<^verbatim>\<open>indeterminate\<close> is only ever read in a boolean context
  (\<^verbatim>\<open>c.selected || c.indeterminate\<close>, \<^verbatim>\<open>value.indeterminate || false\<close>), so an absent
  flag is \<open>False\<close>. An absent \<^verbatim>\<open>children\<close> is only ever read as
  \<^verbatim>\<open>children && children.length > 0\<close>, so it is the empty list.
\<close>

record 'r FilterValue =
  value' :: string
  identity :: SelectionId
  selected :: bool
  indeterminate :: bool
  children :: "'r list"
  parentValue :: "string option"

record 'r HierarchyLevel =
  level_name :: string
  level_values :: "'r list"
  levelIndex :: nat

record 'r FilterCategory =
  cat_name :: string
  cat_displayName :: string
  cat_values :: "'r list"
  isHierarchy :: bool
  hierarchyLevels :: "'r HierarchyLevel list option"
  cat_order :: nat
  collapsed :: bool

type_synonym 'r store = "'r \<Rightarrow> 'r FilterValue"

text \<open>What the visual hands to the selection manager: \<^verbatim>\<open>select(ids, false)\<close> or \<^verbatim>\<open>clear()\<close>.\<close>

datatype emission = Select "SelectionId list" | Clear

text \<open>JavaScript truthiness of an optional string: absent and the empty string are falsy.\<close>

fun truthy :: "string option \<Rightarrow> bool" where
  "truthy None = False"
| "truthy (Some s) = (s \<noteq> [])"

section \<open>Selection state machine\<close>

text \<open>
  \<^verbatim>\<open>cascadeSelectionToDescendants(filterValue, selected)\<close>: the \<^verbatim>\<open>forEach\<close> over the
  children sets both flags of a child and then descends into the child. The loop over a
  list of children is \<open>cascadeForEach\<close>; a call that never returns (a cycle in the
  children) is \<open>None\<close>.
\<close>

partial_function (option) cascadeForEach ::
  "'r store \<Rightarrow> 'r list \<Rightarrow> bool \<Rightarrow> 'r store option" where
  "cascadeForEach h cs sel =
     (case cs of
        [] \<Rightarrow> Some h
      | child # rest \<Rightarrow>
          (let h1 = h(child := (h child)\<lparr>selected := sel, indeterminate := False\<rparr>) in
           Option.bind (cascadeForEach h1 (children (h1 child)) sel)
             (\<lambda>h2. cascadeForEach h2 rest sel)))"

definition cascadeSelectionToDescendants ::
  "'r store \<Rightarrow> 'r \<Rightarrow> bool \<Rightarrow> 'r store option" where
  "cascadeSelectionToDescendants h filterValue sel =
     cascadeForEach h (children (h filterValue)) sel"

text \<open>
  The search of \<^verbatim>\<open>updateParentSelectionRecursive\<close>: the levels are scanned in order, in
  each level \<^verbatim>\<open>values.find(v => v.value === parentValue)\<close> takes the first value with
  that key, and the scan goes on to the next level unless that value has children.
\<close>

fun findParent :: "'r HierarchyLevel list \<Rightarrow> 'r store \<Rightarrow> string \<Rightarrow> 'r option" where
  "findParent [] h pv = None"
| "findParent (level # levels) h pv =
     (case List.find (\<lambda>v. value' (h v) = pv) (level_values level) of
        Some parent \<Rightarrow>
          if children (h parent) \<noteq> [] then Some parent else findParent levels h pv
      | None \<Rightarrow> findParent levels h pv)"

text \<open>The tri-state rule applied to one parent; both tests are made before any write.\<close>

definition recomputeParent :: "'r store \<Rightarrow> 'r \<Rightarrow> 'r FilterValue" where
  "recomputeParent h parent =
     (let allChildrenSelected = list_all (\<lambda>c. selected (h c)) (children (h parent));
          anyChildSelected =
            list_ex (\<lambda>c. selected (h c) \<or> indeterminate (h c)) (children (h parent))
      in if allChildrenSelected then (h parent)\<lparr>selected := True, indeterminate := False\<rparr>
         else if \<not> anyChildSelected then (h parent)\<lparr>selected := False, indeterminate := False\<rparr>
         else (h parent)\<lparr>selected := False, indeterminate := True\<rparr>)"

text \<open>
  \<^verbatim>\<open>updateParentSelectionRecursive(category, parentValue)\<close>. Iterating an absent
  \<^verbatim>\<open>hierarchyLevels\<close> throws, and a chain of parent keys that never ends does not
  return: both are \<open>None\<close>.
\<close>

partial_function (option) updateParentSelectionRecursive ::
  "'r FilterCategory \<Rightarrow> 'r store \<Rightarrow> string \<Rightarrow> 'r store option" where
  "updateParentSelectionRecursive category h pv =
     (case hierarchyLevels category of
        None \<Rightarrow> None
      | Some levels \<Rightarrow>
          (case findParent levels h pv of
             None \<Rightarrow> Some h
           | Some parent \<Rightarrow>
               (let h1 = h(parent := recomputeParent h parent) in
                if truthy (parentValue (h1 parent))
                then updateParentSelectionRecursive category h1 (the (parentValue (h1 parent)))
                else Some h1)))"

text \<open>The identities of the selected values of one array, in array order.\<close>

definition selectedIds :: "'r store \<Rightarrow> 'r list \<Rightarrow> SelectionId list" where
  "selectedIds h vals = map (\<lambda>v. identity (h v)) (filter (\<lambda>v. selected (h v)) vals)"

definition levelsSelectedIds :: "'r store \<Rightarrow> 'r HierarchyLevel list \<Rightarrow> SelectionId list" where
  "levelsSelectedIds h levels = concat (map (\<lambda>level. selectedIds h (level_values level)) levels)"

definition emit :: "SelectionId list \<Rightarrow> emission" where
  "emit ids = (if ids \<noteq> [] then Select ids else Clear)"

text \<open>
  \<^verbatim>\<open>toggleHierarchyValue(filterValue, category, level)\<close>; the parameter \<^verbatim>\<open>level\<close> is
  never read. The result is the store after the call and what was sent to the selection
  manager. \<open>cats\<close> is \<^verbatim>\<open>this.filterCategories\<close>.
\<close>

definition toggleHierarchyValue ::
  "'r FilterCategory list \<Rightarrow> 'r store \<Rightarrow> 'r \<Rightarrow> 'r FilterCategory \<Rightarrow> ('r store \<times> emission) option" where
  "toggleHierarchyValue cats h filterValue category =
     (let newSelectedState = \<not> selected (h filterValue);
          h1 = h(filterValue := (h filterValue)\<lparr>selected := newSelectedState\<rparr>)
      in Option.bind (cascadeSelectionToDescendants h1 filterValue newSelectedState) (\<lambda>h2.
         Option.bind
           (if truthy (parentValue (h2 filterValue))
            then updateParentSelectionRecursive category h2 (the (parentValue (h2 filterValue)))
            else Some h2) (\<lambda>h3.
         (case hierarchyLevels category of
            None \<Rightarrow> None
          | Some levels \<Rightarrow>
              Some (h3, emit (levelsSelectedIds h3 levels @
                  concat (map (\<lambda>cat. selectedIds h3 (cat_values cat))
                    (filter (\<lambda>cat. cat_name cat \<noteq> cat_name category) cats))))))))"

text \<open>\<^verbatim>\<open>toggleSelection(filterValue, category)\<close> of a standalone filter.\<close>

definition toggleSelection ::
  "'r FilterCategory list \<Rightarrow> 'r store \<Rightarrow> 'r \<Rightarrow> 'r FilterCategory \<Rightarrow> 'r store \<times> emission" where
  "toggleSelection cats h filterValue category =
     (let h1 = h(filterValue := (h filterValue)\<lparr>selected := \<not> selected (h filterValue)\<rparr>)
      in (h1, emit (concat (map (\<lambda>cat. selectedIds h1 (cat_values cat)) cats))))"

text \<open>\<^verbatim>\<open>val.selected = false\<close> for every value of an array.\<close>

definition unselectAll :: "'r store \<Rightarrow> 'r list \<Rightarrow> 'r store" where
  "unselectAll h vals = fold (\<lambda>v h'. h'(v := (h' v)\<lparr>selected := False\<rparr>)) vals h"

text \<open>
  The collection loop shared by the two clear operations: for a category, the selected
  identities of its \<^verbatim>\<open>values\<close>, then those of its levels when it has
  \<^verbatim>\<open>hierarchyLevels\<close>.
\<close>

definition categorySelectedIds :: "'r store \<Rightarrow> 'r FilterCategory \<Rightarrow> SelectionId list" where
  "categorySelectedIds h cat =
     selectedIds h (cat_values cat) @
     (case hierarchyLevels cat of None \<Rightarrow> [] | Some levels \<Rightarrow> levelsSelectedIds h levels)"

text \<open>\<^verbatim>\<open>clearCategorySelection(category)\<close>.\<close>

definition clearCategorySelection ::
  "'r FilterCategory list \<Rightarrow> 'r store \<Rightarrow> 'r FilterCategory \<Rightarrow> 'r store \<times> emission" where
  "clearCategorySelection cats h category =
     (let h1 = unselectAll h (cat_values category)
      in (h1, emit (concat (map (categorySelectedIds h1) cats))))"

text \<open>\<^verbatim>\<open>clearHierarchySelection(category)\<close>; an absent \<^verbatim>\<open>hierarchyLevels\<close> throws.\<close>

definition clearHierarchySelection ::
  "'r FilterCategory list \<Rightarrow> 'r store \<Rightarrow> 'r FilterCategory \<Rightarrow> ('r store \<times> emission) option" where
  "clearHierarchySelection cats h category =
     (case hierarchyLevels category of
        None \<Rightarrow> None
      | Some levels \<Rightarrow>
          (let h1 = fold (\<lambda>level h'. unselectAll h' (level_values level)) levels h
           in Some (h1, emit (concat (map (categorySelectedIds h1)
                 (filter (\<lambda>cat. cat_name cat \<noteq> cat_name category) cats))))))"

section \<open>Building the filter model: \<^verbatim>\<open>processData\<close>\<close>

text \<open>\<^verbatim>\<open>value != null ? String(value) : "(Blank)"\<close>.\<close>

definition stringValue :: "string option \<Rightarrow> string" where
  "stringValue v = (case v of Some s \<Rightarrow> s | None \<Rightarrow> ''(Blank)'')"

text \<open>\<^verbatim>\<open>values[rowIdx]\<close>: reading past the end of a JavaScript array gives \<^verbatim>\<open>undefined\<close>.\<close>

definition cellAt :: "DataViewCategoryColumn \<Rightarrow> nat \<Rightarrow> string option" where
  "cellAt category rowIdx =
     (if rowIdx < length (col_values category) then col_values category ! rowIdx else None)"

text \<open>\<^verbatim>\<open>s.split('.')[0]\<close>: the part of \<open>s\<close> before its first dot.\<close>

definition splitHead :: "string \<Rightarrow> string" where
  "splitHead s = takeWhile (\<lambda>c. c \<noteq> CHR ''.'') s"

subsection \<open>Grouping the columns\<close>

text \<open>
  An entry of \<^verbatim>\<open>categoryOrder\<close>: \<^verbatim>\<open>{type: 'hierarchy', name, index, categories}\<close> or
  \<^verbatim>\<open>{type: 'single', name, index, category}\<close>. The name of a single entry is the column's
  \<^verbatim>\<open>displayName\<close>, which may be absent.
\<close>

datatype OrderItem =
  HierarchyItem string nat "DataViewCategoryColumn list"
| SingleItem "string option" nat DataViewCategoryColumn

text \<open>
  The test of the inner loop:
  \<^verbatim>\<open>otherQueryName && otherQueryName.split('.')[0] === baseName\<close>.
\<close>

definition sameBase :: "string \<Rightarrow> DataViewCategoryColumn \<Rightarrow> bool" where
  "sameBase baseName otherCat =
     (truthy (queryName otherCat) \<and> splitHead (the (queryName otherCat)) = baseName)"

text \<open>\<^verbatim>\<open>cat.source.displayName?.split('.')[0] || baseName\<close>.\<close>

definition hierarchyNameOf :: "DataViewCategoryColumn \<Rightarrow> string \<Rightarrow> string" where
  "hierarchyNameOf cat baseName =
     (case displayName cat of
        None \<Rightarrow> baseName
      | Some d \<Rightarrow> if splitHead d \<noteq> [] then splitHead d else baseName)"

text \<open>
  One turn of the outer \<^verbatim>\<open>categories.forEach((cat, idx) => ...)\<close>, on the pair of
  \<^verbatim>\<open>categoryOrder\<close> and \<^verbatim>\<open>processedIndices\<close>.
\<close>

definition groupStep ::
  "DataViewCategoryColumn list \<Rightarrow> nat \<Rightarrow> OrderItem list \<times> nat set \<Rightarrow> OrderItem list \<times> nat set" where
  "groupStep categories idx st =
     (let categoryOrder = fst st; processedIndices = snd st; cat = categories ! idx in
      if idx \<in> processedIndices then st
      else if \<not> truthy (queryName cat)
      then (categoryOrder @ [SingleItem (displayName cat) idx cat], insert idx processedIndices)
      else
        (let baseName = splitHead (the (queryName cat));
             relatedIdx = filter (\<lambda>otherIdx. sameBase baseName (categories ! otherIdx))
                            [0..<length categories];
             relatedCategories = map (\<lambda>otherIdx. categories ! otherIdx) relatedIdx;
             processed' = processedIndices \<union> set relatedIdx
         in if length relatedCategories > 1
            then (categoryOrder @ [HierarchyItem (hierarchyNameOf cat baseName) idx relatedCategories],
                  processed')
            else (categoryOrder @ [SingleItem (displayName cat) idx cat], processed')))"

definition groupCategories :: "DataViewCategoryColumn list \<Rightarrow> OrderItem list" where
  "groupCategories categories =
     fst (fold (groupStep categories) [0..<length categories] ([], {}))"

subsection \<open>Objects created by a rebuild\<close>

text \<open>
  A rebuild creates a value object in exactly two places, both guarded by
  \<^verbatim>\<open>!uniqueValuesMap.has(stringValue)\<close>: one per group, level and canonical key. That
  triple is the reference of the object (a standalone filter has the single level 0).
  References that name no object hold \<open>noObject\<close>; no operation reaches them.
\<close>

type_synonym ref = "nat \<times> nat \<times> string"

definition noObject :: "ref FilterValue" where
  "noObject = \<lparr>value' = [], identity = SelectionId \<lparr>displayName = None, queryName = None, col_values = []\<rparr> 0,
     selected = False, indeterminate = False, children = [], parentValue = None\<rparr>"

definition emptyStore :: "ref store" where
  "emptyStore = (\<lambda>r. noObject)"

text \<open>
  The state of a rebuild: the store and the log of the host's minting calls. A
  \<^verbatim>\<open>Map<string, FilterValue>\<close> is an association list in insertion order.
\<close>

type_synonym build = "ref store \<times> SelectionId list"

subsection \<open>Hierarchy, first pass: one object per distinct key of a level\<close>

definition firstPassStep ::
  "nat \<Rightarrow> nat \<Rightarrow> DataViewCategoryColumn \<Rightarrow> string option \<times> nat \<Rightarrow>
     (string \<times> ref) list \<times> build \<Rightarrow> (string \<times> ref) list \<times> build" where
  "firstPassStep orderIndex levelIdx category cell st =
     (let uniqueValuesMap = fst st; h = fst (snd st); minted = snd (snd st);
          sv = stringValue (fst cell); index = snd cell in
      if map_of uniqueValuesMap sv = None
      then (let ident = SelectionId category index; r = (orderIndex, levelIdx, sv) in
            (uniqueValuesMap @ [(sv, r)],
             h(r := \<lparr>value' = sv, identity = ident, selected = False, indeterminate = False,
                     children = [], parentValue = None\<rparr>),
             minted @ [ident]))
      else st)"

definition firstPassLevel ::
  "nat \<Rightarrow> nat \<Rightarrow> DataViewCategoryColumn \<Rightarrow> build \<Rightarrow> (string \<times> ref) list \<times> build" where
  "firstPassLevel orderIndex levelIdx category b =
     fold (firstPassStep orderIndex levelIdx category)
       (zip (col_values category) [0..<length (col_values category)]) ([], b)"

text \<open>The first pass over all levels; the result carries \<^verbatim>\<open>valuesByLevel\<close>.\<close>

fun firstPass ::
  "nat \<Rightarrow> nat \<Rightarrow> DataViewCategoryColumn list \<Rightarrow> build \<Rightarrow> (string \<times> ref) list list \<times> build" where
  "firstPass orderIndex levelIdx [] b = ([], b)"
| "firstPass orderIndex levelIdx (category # rest) b =
     (let r1 = firstPassLevel orderIndex levelIdx category b;
          r2 = firstPass orderIndex (Suc levelIdx) rest (snd r1)
      in (fst r1 # fst r2, snd r2))"

subsection \<open>Hierarchy, second pass: linking parents and children row by row\<close>

text \<open>The body of \<^verbatim>\<open>if (parent && child)\<close>.\<close>

definition linkNodes :: "'r store \<Rightarrow> 'r \<Rightarrow> 'r \<Rightarrow> 'r store" where
  "linkNodes h parent child =
     (if \<not> list_ex (\<lambda>c. value' (h c) = value' (h child)) (children (h parent))
      then (let h1 = h(parent := (h parent)\<lparr>children := children (h parent) @ [child]\<rparr>)
            in h1(child := (h1 child)\<lparr>parentValue := Some (value' (h1 parent))\<rparr>))
      else h)"

text \<open>The body of the inner \<^verbatim>\<open>for\<close> loop, for one row and one pair of adjacent levels.\<close>

definition linkStep ::
  "DataViewCategoryColumn list \<Rightarrow> (string \<times> 'r) list list \<Rightarrow> nat \<Rightarrow> nat \<Rightarrow> 'r store \<Rightarrow> 'r store" where
  "linkStep categories valuesByLevel rowIdx levelIdx h =
     (let parentStr = stringValue (cellAt (categories ! levelIdx) rowIdx);
          childStr = stringValue (cellAt (categories ! (levelIdx + 1)) rowIdx)
      in case (map_of (valuesByLevel ! levelIdx) parentStr,
               map_of (valuesByLevel ! (levelIdx + 1)) childStr) of
           (Some parent, Some child) \<Rightarrow> linkNodes h parent child
         | _ \<Rightarrow> h)"

definition linkRow ::
  "DataViewCategoryColumn list \<Rightarrow> (string \<times> 'r) list list \<Rightarrow> nat \<Rightarrow> 'r store \<Rightarrow> 'r store" where
  "linkRow categories valuesByLevel rowIdx h =
     fold (linkStep categories valuesByLevel rowIdx) [0..<length categories - 1] h"

definition secondPass ::
  "DataViewCategoryColumn list \<Rightarrow> (string \<times> 'r) list list \<Rightarrow> 'r store \<Rightarrow> 'r store" where
  "secondPass categories valuesByLevel h =
     (case categories of
        [] \<Rightarrow> h
      | first # _ \<Rightarrow>
          fold (linkRow categories valuesByLevel) [0..<length (col_values first)] h)"

subsection \<open>Hierarchy, third pass, and the standalone filter\<close>

text \<open>\<^verbatim>\<open>x || fallback\<close> on an optional string.\<close>

definition orElse :: "string option \<Rightarrow> string \<Rightarrow> string" where
  "orElse x fallback = (if truthy x then the x else fallback)"

definition thirdPass ::
  "DataViewCategoryColumn list \<Rightarrow> (string \<times> ref) list list \<Rightarrow> ref HierarchyLevel list" where
  "thirdPass categories valuesByLevel =
     map (\<lambda>levelIdx.
           \<lparr>level_name = orElse (displayName (categories ! levelIdx)) ''Level'',
            level_values = map snd (valuesByLevel ! levelIdx),
            levelIndex = levelIdx\<rparr>)
       [0..<length categories]"

definition buildHierarchy ::
  "nat \<Rightarrow> DataViewCategoryColumn list \<Rightarrow> build \<Rightarrow> ref HierarchyLevel list \<times> build" where
  "buildHierarchy orderIndex categories b =
     (let r1 = firstPass orderIndex 0 categories b;
          valuesByLevel = fst r1;
          h2 = secondPass categories valuesByLevel (fst (snd r1))
      in (thirdPass categories valuesByLevel, (h2, snd (snd r1))))"

text \<open>
  The standalone filter: the first loop records the row of the first occurrence of each
  key, the second loop mints one identity per recorded key and creates the value.
\<close>

definition firstIndexStep :: "string option \<times> nat \<Rightarrow> (string \<times> nat) list \<Rightarrow> (string \<times> nat) list" where
  "firstIndexStep cell uniqueValuesMap =
     (let sv = stringValue (fst cell) in
      if map_of uniqueValuesMap sv = None then uniqueValuesMap @ [(sv, snd cell)]
      else uniqueValuesMap)"

definition firstIndices :: "DataViewCategoryColumn \<Rightarrow> (string \<times> nat) list" where
  "firstIndices category =
     fold firstIndexStep (zip (col_values category) [0..<length (col_values category)]) []"

definition createValueStep ::
  "nat \<Rightarrow> DataViewCategoryColumn \<Rightarrow> string \<times> nat \<Rightarrow> ref list \<times> build \<Rightarrow> ref list \<times> build" where
  "createValueStep orderIndex category entry st =
     (let vals = fst st; h = fst (snd st); minted = snd (snd st);
          ident = SelectionId category (snd entry); r = (orderIndex, 0, fst entry) in
      (vals @ [r],
       h(r := \<lparr>value' = fst entry, identity = ident, selected = False, indeterminate = False,
               children = [], parentValue = None\<rparr>),
       minted @ [ident]))"

definition buildSingle :: "nat \<Rightarrow> DataViewCategoryColumn \<Rightarrow> build \<Rightarrow> ref list \<times> build" where
  "buildSingle orderIndex category b =
     fold (createValueStep orderIndex category) (firstIndices category) ([], b)"

subsection \<open>The rebuild\<close>

text \<open>Decimal digits of a number, for \<^verbatim>\<open>`Filter ${orderIndex + 1}`\<close>.\<close>

fun decimal :: "nat \<Rightarrow> string" where
  "decimal n =
     (if n < 10 then [char_of (48 + n)] else decimal (n div 10) @ [char_of (48 + n mod 10)])"

text \<open>
  \<^verbatim>\<open>collapsedStates.get(name) ?? false\<close>, where the map was filled from the previous
  categories in order (a later category of the same name overwrites an earlier one).
\<close>

definition collapsedState :: "'r FilterCategory list \<Rightarrow> string \<Rightarrow> bool" where
  "collapsedState oldCategories name =
     (case map_of (rev (map (\<lambda>cat. (cat_name cat, collapsed cat)) oldCategories)) name of
        Some c \<Rightarrow> c
      | None \<Rightarrow> False)"

text \<open>One turn of \<^verbatim>\<open>categoryOrder.forEach((item, orderIndex) => ...)\<close>.\<close>

fun processItem ::
  "ref FilterCategory list \<Rightarrow> OrderItem \<times> nat \<Rightarrow> ref FilterCategory list \<times> build \<Rightarrow>
     ref FilterCategory list \<times> build" where
  "processItem oldCategories (HierarchyItem name index categories, orderIndex) (cats, b) =
     (let r = buildHierarchy orderIndex categories b in
      (cats @ [\<lparr>cat_name = name, cat_displayName = name, cat_values = [], isHierarchy = True,
                 hierarchyLevels = Some (fst r), cat_order = orderIndex,
                 collapsed = collapsedState oldCategories name\<rparr>],
       snd r))"
| "processItem oldCategories (SingleItem name index category, orderIndex) (cats, b) =
     (let categoryName = orElse (displayName category) (''Filter '' @ decimal (orderIndex + 1));
          r = buildSingle orderIndex category b in
      (cats @ [\<lparr>cat_name = categoryName, cat_displayName = categoryName, cat_values = fst r,
                 isHierarchy = False, hierarchyLevels = None, cat_order = orderIndex,
                 collapsed = collapsedState oldCategories categoryName\<rparr>],
       snd r))"

text \<open>
  \<^verbatim>\<open>processData(dataView)\<close>: from the previous categories (read for their collapsed flags
  only) and the columns, the new \<^verbatim>\<open>filterCategories\<close>, the store of the new objects and
  the minting log.
\<close>

definition processData ::
  "ref FilterCategory list \<Rightarrow> DataViewCategoryColumn list \<Rightarrow> ref FilterCategory list \<times> build" where
  "processData oldCategories categories =
     (let categoryOrder = groupCategories categories in
      fold (processItem oldCategories) (zip categoryOrder [0..<length categoryOrder])
        ([], (emptyStore, [])))"

section \<open>Notions used by the properties\<close>

declare cascadeForEach.simps [code]

declare updateParentSelectionRecursive.simps [code]

text \<open>
  The guard \<^verbatim>\<open>if (x.parentValue) this.updateParentSelectionRecursive(category, x.parentValue)\<close>,
  which the source writes both in \<^verbatim>\<open>toggleHierarchyValue\<close> and in the recursion itself.
\<close>

definition updateFrom :: "'r FilterCategory \<Rightarrow> 'r store \<Rightarrow> string option \<Rightarrow> 'r store option" where
  "updateFrom category h pk =
     (if truthy pk then updateParentSelectionRecursive category h (the pk) else Some h)"

text \<open>
  Two stores have the same shape when they differ in the two selection flags only. No
  operation of the state machine changes the shape.
\<close>

definition sameShape :: "'r store \<Rightarrow> 'r store \<Rightarrow> bool" where
  "sameShape g h \<longleftrightarrow>
     (\<forall>x. value' (g x) = value' (h x) \<and> identity (g x) = identity (h x) \<and>
          children (g x) = children (h x) \<and> parentValue (g x) = parentValue (h x))"

text \<open>
  The strict descendants of a value: what is reached through one or more \<^verbatim>\<open>children\<close>
  arrays.
\<close>

inductive descendant :: "'r store \<Rightarrow> 'r \<Rightarrow> 'r \<Rightarrow> bool" for h :: "'r store" where
  child: "c \<in> set (children (h a)) \<Longrightarrow> descendant h a c"
| below: "c \<in> set (children (h a)) \<Longrightarrow> descendant h c d \<Longrightarrow> descendant h a d"

text \<open>
  The ancestors that the upward recomputation reaches from a parent key: the value that
  the search finds for the key, then what is reached from that value's own parent key. A
  falsy key (absent or empty) reaches nothing, as the guard of the source has it.
\<close>

inductive reached :: "'r HierarchyLevel list \<Rightarrow> 'r store \<Rightarrow> string option \<Rightarrow> 'r \<Rightarrow> bool"
  for levels :: "'r HierarchyLevel list" and h :: "'r store" where
  found: "truthy pk \<Longrightarrow> findParent levels h (the pk) = Some p \<Longrightarrow> reached levels h pk p"
| above: "truthy pk \<Longrightarrow> findParent levels h (the pk) = Some q \<Longrightarrow>
          reached levels h (parentValue (h q)) p \<Longrightarrow> reached levels h pk p"

text \<open>
  The ancestor chain of a value of level \<open>i\<close> as the parent keys name it, independently of
  the lookup of the recomputation: the value of level \<open>i - 1\<close> whose key is the parent key
  of the value, then the chain of that value in turn.
\<close>

fun ancestorChain :: "'r HierarchyLevel list \<Rightarrow> 'r store \<Rightarrow> nat \<Rightarrow> 'r \<Rightarrow> 'r list" where
  "ancestorChain levels h 0 n = []"
| "ancestorChain levels h (Suc i) n =
     (case parentValue (h n) of
        None \<Rightarrow> []
      | Some key \<Rightarrow>
          (case List.find (\<lambda>v. value' (h v) = key) (level_values (levels ! i)) of
             None \<Rightarrow> []
           | Some p \<Rightarrow> p # ancestorChain levels h i p))"

text \<open>Setting both flags on a set of values, the net effect of a cascade.\<close>

definition mark :: "bool \<Rightarrow> 'r set \<Rightarrow> 'r store \<Rightarrow> 'r store" where
  "mark sel S h = (\<lambda>x. if x \<in> S then (h x)\<lparr>selected := sel, indeterminate := False\<rparr> else h x)"

text \<open>A set of values together with all their strict descendants.\<close>

definition under :: "'r store \<Rightarrow> 'r set \<Rightarrow> 'r set" where
  "under h S = S \<union> {d. \<exists>a\<in>S. descendant h a d}"

text \<open>
  The shape that the tree builder gives a hierarchy: the children of a value of level
  \<open>i\<close> are values of level \<open>i + 1\<close>; a value of level \<open>i\<close> with a truthy parent key has
  \<open>i > 0\<close>, and the first value of level \<open>i - 1\<close> with that key has children; no object
  belongs to two levels.
\<close>

definition levelled :: "'r HierarchyLevel list \<Rightarrow> 'r store \<Rightarrow> bool" where
  "levelled levels h =
     list_all (\<lambda>i.
        list_all (\<lambda>a.
           list_all (\<lambda>c. Suc i < length levels \<and> c \<in> set (level_values (levels ! Suc i)))
             (children (h a)) \<and>
           (truthy (parentValue (h a)) \<longrightarrow>
              0 < i \<and>
              (case List.find (\<lambda>v. value' (h v) = the (parentValue (h a)))
                      (level_values (levels ! (i - 1))) of
                 None \<Rightarrow> False
               | Some p \<Rightarrow> children (h p) \<noteq> [])) \<and>
           list_all (\<lambda>j. a \<notin> set (level_values (levels ! j))) [0..<i])
          (level_values (levels ! i)))
       [0..<length levels]"

subsection \<open>The grouper, as the specification words it\<close>

text \<open>
  The lineage key of a field: the part of its \<^verbatim>\<open>queryName\<close> before the first dot; a
  field with a falsy \<^verbatim>\<open>queryName\<close> has none.
\<close>

definition lineageKey :: "DataViewCategoryColumn \<Rightarrow> string option" where
  "lineageKey cat = (if truthy (queryName cat) then Some (splitHead (the (queryName cat))) else None)"

text \<open>A field opens a group when it has no lineage key or no earlier field shares its key.\<close>

definition firstOfLineage :: "DataViewCategoryColumn list \<Rightarrow> nat \<Rightarrow> bool" where
  "firstOfLineage categories idx =
     (lineageKey (categories ! idx) = None \<or>
      list_all (\<lambda>j. lineageKey (categories ! j) \<noteq> lineageKey (categories ! idx)) [0..<idx])"

text \<open>
  The group that the field at \<open>idx\<close> opens: a field without lineage key is standalone;
  otherwise all fields with its lineage key are collected in their original order, and
  they form a hierarchy when there are more than one. The name of a hierarchy is
  \<open>hierarchyNameOf\<close>: the part of the first field's display name before its first dot, or
  the lineage key when the display name is absent or that part is empty.
\<close>

definition groupOf :: "DataViewCategoryColumn list \<Rightarrow> nat \<Rightarrow> OrderItem" where
  "groupOf categories idx =
     (let cat = categories ! idx in
      case lineageKey cat of
        None \<Rightarrow> SingleItem (displayName cat) idx cat
      | Some key \<Rightarrow>
          (let fields = filter (\<lambda>c. lineageKey c = Some key) categories in
           if length fields > 1 then HierarchyItem (hierarchyNameOf cat key) idx fields
           else SingleItem (displayName cat) idx cat))"

definition groupSpec :: "DataViewCategoryColumn list \<Rightarrow> OrderItem list" where
  "groupSpec categories =
     map (groupOf categories) (filter (firstOfLineage categories) [0..<length categories])"

text \<open>The indices that are consumed once the fields before \<open>i\<close> have been visited.\<close>

definition consumed :: "DataViewCategoryColumn list \<Rightarrow> nat \<Rightarrow> nat set" where
  "consumed categories i =
     {j. j < length categories \<and>
         (j < i \<or> (lineageKey (categories ! j) \<noteq> None \<and>
                   (\<exists>k<i. lineageKey (categories ! k) = lineageKey (categories ! j))))}"

subsection \<open>Deduplication in first-occurrence order\<close>

text \<open>
  The distinct elements of a list in the order of their first occurrences, and the index
  of the first occurrence of an element.
\<close>

definition firstOccurrences :: "'a list \<Rightarrow> 'a list" where
  "firstOccurrences xs = rev (remdups (rev xs))"

definition firstIndex :: "'a list \<Rightarrow> 'a \<Rightarrow> nat" where
  "firstIndex xs x = length (takeWhile (\<lambda>y. y \<noteq> x) xs)"

text \<open>The keys that the builders compute for the cells of a column, row by row.\<close>

definition columnKeys :: "DataViewCategoryColumn \<Rightarrow> string list" where
  "columnKeys category = map stringValue (col_values category)"

text \<open>The value object as its creation leaves it, for the key \<open>k\<close> of a column with keys \<open>keys\<close>.\<close>

definition freshValue :: "DataViewCategoryColumn \<Rightarrow> string list \<Rightarrow> string \<Rightarrow> ref FilterValue" where
  "freshValue category keys k =
     \<lparr>value' = k, identity = SelectionId category (firstIndex keys k), selected = False,
      indeterminate = False, children = [], parentValue = None\<rparr>"

text \<open>
  The canonical key of a cell as the specification words it, independently of the code:
  the text of the cell, and the sentinel \<open>(Blank)\<close> for a null or absent cell.
\<close>

fun canonicalKey :: "string option \<Rightarrow> string" where
  "canonicalKey None = ''(Blank)''"
| "canonicalKey (Some s) = s"

definition canonicalKeys :: "DataViewCategoryColumn \<Rightarrow> string list" where
  "canonicalKeys category = map canonicalKey (col_values category)"

text \<open>
  What the dedup property says of the value nodes built for a column, measured against the
  canonical keys of the specification: there are as many nodes as distinct canonical keys;
  the keys of the nodes are the canonical keys of the column, each once, in the order of
  their first occurrences; the identity of each node is the token minted for the column at
  the row of the first occurrence of its key; and no two nodes share a token.
\<close>

definition deduplicated :: "DataViewCategoryColumn \<Rightarrow> ref list \<Rightarrow> ref store \<Rightarrow> bool" where
  "deduplicated category nodes h =
     (let keys = canonicalKeys category; nodeKeys = map (\<lambda>r. value' (h r)) nodes in
      length nodes = card (set keys) \<and>
      nodeKeys = firstOccurrences keys \<and>
      distinct nodeKeys \<and> set nodeKeys = set keys \<and>
      sorted_wrt (<) (map (firstIndex keys) nodeKeys) \<and>
      map (\<lambda>r. identity (h r)) nodes = map (\<lambda>k. SelectionId category (firstIndex keys k)) nodeKeys \<and>
      distinct (map (\<lambda>r. identity (h r)) nodes))"

text \<open>The store in which the values of one level, or of all levels, have just been created.\<close>

definition withLevel ::
  "nat \<Rightarrow> nat \<Rightarrow> DataViewCategoryColumn \<Rightarrow> string list \<Rightarrow> ref store \<Rightarrow> ref store" where
  "withLevel oi l category ks h =
     (\<lambda>r. if fst r = oi \<and> fst (snd r) = l \<and> snd (snd r) \<in> set ks
          then freshValue category ks (snd (snd r)) else h r)"

definition withLevels :: "nat \<Rightarrow> DataViewCategoryColumn list \<Rightarrow> ref store \<Rightarrow> ref store" where
  "withLevels oi cs h =
     (\<lambda>r. if fst r = oi \<and> fst (snd r) < length cs \<and>
             snd (snd r) \<in> set (columnKeys (cs ! fst (snd r)))
          then freshValue (cs ! fst (snd r)) (columnKeys (cs ! fst (snd r))) (snd (snd r))
          else h r)"

subsection \<open>The links of the row scan\<close>

text \<open>
  The canonical key that the linking pass reads at a level and a row, and the number of
  rows it scans (the length of the first column).
\<close>

definition keyAt :: "DataViewCategoryColumn list \<Rightarrow> nat \<Rightarrow> nat \<Rightarrow> string" where
  "keyAt categories levelIdx rowIdx = stringValue (cellAt (categories ! levelIdx) rowIdx)"

definition rowCount :: "DataViewCategoryColumn list \<Rightarrow> nat" where
  "rowCount categories = (case categories of [] \<Rightarrow> 0 | first # _ \<Rightarrow> length (col_values first))"

text \<open>
  An edge is a level, a parent key at that level and a child key at the next level. At a
  row and a level, both lookups succeed when the two keys are keys of their columns.
  \<open>linkedEdges\<close> lists, in the order of the scan (row by row, level by level), the edges
  whose lookups succeed.
\<close>

type_synonym edge = "nat \<times> string \<times> string"

definition bothFound :: "DataViewCategoryColumn list \<Rightarrow> nat \<times> nat \<Rightarrow> bool" where
  "bothFound categories s =
     (keyAt categories (snd s) (fst s) \<in> set (columnKeys (categories ! snd s)) \<and>
      keyAt categories (Suc (snd s)) (fst s) \<in> set (columnKeys (categories ! Suc (snd s))))"

definition edgeOf :: "DataViewCategoryColumn list \<Rightarrow> nat \<times> nat \<Rightarrow> edge" where
  "edgeOf categories s =
     (snd s, keyAt categories (snd s) (fst s), keyAt categories (Suc (snd s)) (fst s))"

definition linkedEdges :: "DataViewCategoryColumn list \<Rightarrow> edge list" where
  "linkedEdges categories =
     map (edgeOf categories)
       (filter (bothFound categories)
          (List.product [0..<rowCount categories] [0..<length categories - 1]))"

text \<open>
  The new links: each edge where the scan meets it first. These are the steps that append
  a child. The parent key of the last new link to a child key of level \<open>l\<close> is
  \<open>lastLinkedParent\<close>.
\<close>

definition newLinks :: "DataViewCategoryColumn list \<Rightarrow> edge list" where
  "newLinks categories = firstOccurrences (linkedEdges categories)"

definition lastLinkedParent :: "DataViewCategoryColumn list \<Rightarrow> nat \<Rightarrow> string \<Rightarrow> string option" where
  "lastLinkedParent categories l k =
     (case filter (\<lambda>e. Suc (fst e) = l \<and> snd (snd e) = k) (newLinks categories) of
        [] \<Rightarrow> None
      | e # es \<Rightarrow> Some (fst (snd (last (e # es)))))"

text \<open>The objects at the two ends of an edge in the group \<open>oi\<close>, and a store with a list of
  edges written into it: each edge appends its child to its parent's children, and the
  last edge to a child gives the child its parent key.\<close>

definition parentRef :: "nat \<Rightarrow> edge \<Rightarrow> ref" where
  "parentRef oi e = (oi, fst e, fst (snd e))"

definition childRef :: "nat \<Rightarrow> edge \<Rightarrow> ref" where
  "childRef oi e = (oi, Suc (fst e), snd (snd e))"

definition linkedStore :: "nat \<Rightarrow> edge list \<Rightarrow> ref store \<Rightarrow> ref store" where
  "linkedStore oi es h =
     (\<lambda>r. (h r)\<lparr>children := children (h r) @ map (childRef oi) (filter (\<lambda>e. parentRef oi e = r) es),
                 parentValue := (if filter (\<lambda>e. childRef oi e = r) es = [] then parentValue (h r)
                                 else Some (fst (snd (last (filter (\<lambda>e. childRef oi e = r) es)))))\<rparr>)"

text \<open>The store and the levels of a built hierarchy, in closed form.\<close>

definition builtStore :: "nat \<Rightarrow> DataViewCategoryColumn list \<Rightarrow> ref store \<Rightarrow> ref store" where
  "builtStore oi categories h = linkedStore oi (newLinks categories) (withLevels oi categories h)"

definition builtLevels :: "nat \<Rightarrow> DataViewCategoryColumn list \<Rightarrow> ref HierarchyLevel list" where
  "builtLevels oi categories =
     map (\<lambda>l. \<lparr>level_name = orElse (displayName (categories ! l)) ''Level'',
               level_values = map (\<lambda>k. (oi, l, k)) (firstOccurrences (columnKeys (categories ! l))),
               levelIndex = l\<rparr>)
       [0..<length categories]"

text \<open>
  All hierarchies among the categories are levelled, and their objects belong to groups
  with an order index below \<open>i\<close>.
\<close>

definition allLevelled :: "nat \<Rightarrow> ref FilterCategory list \<Rightarrow> ref store \<Rightarrow> bool" where
  "allLevelled i cats h \<longleftrightarrow>
     (\<forall>cat\<in>set cats. \<forall>ls. hierarchyLevels cat = Some ls \<longrightarrow>
        levelled ls h \<and> (\<forall>l<length ls. \<forall>a\<in>set (level_values (ls ! l)). fst a < i))"

subsection \<open>A small data view\<close>

text \<open>
  The rows (Fruit, Apple), (Fruit, Banana), (Veg, Carrot) of a two-level hierarchy, and a
  standalone column with a repeated value and a blank cell.
\<close>

definition colCategory :: DataViewCategoryColumn where
  "colCategory = \<lparr>displayName = Some ''Category'', queryName = Some ''Food.Category'',
     col_values = [Some ''Fruit'', Some ''Fruit'', Some ''Veg'']\<rparr>"

definition colItem :: DataViewCategoryColumn where
  "colItem = \<lparr>displayName = Some ''Item'', queryName = Some ''Food.Item'',
     col_values = [Some ''Apple'', Some ''Banana'', Some ''Carrot'']\<rparr>"

definition colRegion :: DataViewCategoryColumn where
  "colRegion = \<lparr>displayName = Some ''Region'', queryName = Some ''Region'',
     col_values = [Some ''North'', None, Some ''North'']\<rparr>"

definition exampleCats :: "ref FilterCategory list" where
  "exampleCats = fst (processData [] [colCategory, colItem, colRegion])"

definition exampleStore :: "ref store" where
  "exampleStore = fst (snd (processData [] [colCategory, colItem, colRegion]))"

definition exampleLevels :: "ref HierarchyLevel list" where
  "exampleLevels =
     [\<lparr>level_name = ''Category'', level_values = [(0, 0, ''Fruit''), (0, 0, ''Veg'')], levelIndex = 0\<rparr>,
      \<lparr>level_name = ''Item'',
        level_values = [(0, 1, ''Apple''), (0, 1, ''Banana''), (0, 1, ''Carrot'')], levelIndex = 1\<rparr>]"

text \<open>The store after Apple has been toggled: Apple selected, Fruit indeterminate.\<close>

definition appleStore :: "ref store" where
  "appleStore =
     (case toggleHierarchyValue exampleCats exampleStore (0, 1, ''Apple'') (exampleCats ! 0) of
        Some r \<Rightarrow> fst r
      | None \<Rightarrow> exampleStore)"

text \<open>
  A hierarchy in which the child x occurs under A, then under B, then under A again, and
  one whose first display name contains a dot.
\<close>

definition colParent :: DataViewCategoryColumn where
  "colParent = \<lparr>displayName = Some ''P'', queryName = Some ''H.P'',
     col_values = [Some ''A'', Some ''B'', Some ''A'']\<rparr>"

definition colChild :: DataViewCategoryColumn where
  "colChild = \<lparr>displayName = Some ''C'', queryName = Some ''H.C'',
     col_values = [Some ''x'', Some ''x'', Some ''x'']\<rparr>"

definition colDotted :: DataViewCategoryColumn where
  "colDotted = \<lparr>displayName = Some ''Product.Category'', queryName = Some ''Product.Category'',
     col_values = [Some ''Bikes'']\<rparr>"

definition colDotted2 :: DataViewCategoryColumn where
  "colDotted2 = \<lparr>displayName = Some ''Product.Name'', queryName = Some ''Product.Name'',
     col_values = [Some ''Road'']\<rparr>"

text \<open>
  A three-level hierarchy with the rows (Food, Fruit, Apple), (Food, Fruit, Banana).
\<close>

definition colDept :: DataViewCategoryColumn where
  "colDept = \<lparr>displayName = Some ''Dept'', queryName = Some ''Shop.Dept'',
     col_values = [Some ''Food'', Some ''Food'']\<rparr>"

definition colKind :: DataViewCategoryColumn where
  "colKind = \<lparr>displayName = Some ''Kind'', queryName = Some ''Shop.Kind'',
     col_values = [Some ''Fruit'', Some ''Fruit'']\<rparr>"

definition colName :: DataViewCategoryColumn where
  "colName = \<lparr>displayName = Some ''Name'', queryName = Some ''Shop.Name'',
     col_values = [Some ''Apple'', Some ''Banana'']\<rparr>"

definition deepCats :: "ref FilterCategory list" where
  "deepCats = fst (processData [] [colDept, colKind, colName])"

definition deepStore :: "ref store" where
  "deepStore = fst (snd (processData [] [colDept, colKind, colName]))"

definition deepLevels :: "ref HierarchyLevel list" where
  "deepLevels =
     [\<lparr>level_name = ''Dept'', level_values = [(0, 0, ''Food'')], levelIndex = 0\<rparr>,
      \<lparr>level_name = ''Kind'', level_values = [(0, 1, ''Fruit'')], levelIndex = 1\<rparr>,
      \<lparr>level_name = ''Name'', level_values = [(0, 2, ''Apple''), (0, 2, ''Banana'')], levelIndex = 2\<rparr>]"

text \<open>
  A three-level hierarchy in which the key Other names a category and a subcategory, with
  the rows (Other, Other, m1), (Other, Other, m2); and a two-level hierarchy whose only
  parent has the empty string as its key, with the rows (empty, a), (empty, b).
\<close>

definition colCat :: DataViewCategoryColumn where
  "colCat = \<lparr>displayName = Some ''Cat'', queryName = Some ''Sales.Cat'',
     col_values = [Some ''Other'', Some ''Other'']\<rparr>"

definition colSub :: DataViewCategoryColumn where
  "colSub = \<lparr>displayName = Some ''Sub'', queryName = Some ''Sales.Sub'',
     col_values = [Some ''Other'', Some ''Other'']\<rparr>"

definition colProd :: DataViewCategoryColumn where
  "colProd = \<lparr>displayName = Some ''Prod'', queryName = Some ''Sales.Prod'',
     col_values = [Some ''m1'', Some ''m2'']\<rparr>"

definition sharedKeyCats :: "ref FilterCategory list" where
  "sharedKeyCats = fst (processData [] [colCat, colSub, colProd])"

definition sharedKeyStore :: "ref store" where
  "sharedKeyStore = fst (snd (processData [] [colCat, colSub, colProd]))"

definition colUnnamed :: DataViewCategoryColumn where
  "colUnnamed = \<lparr>displayName = Some ''Team'', queryName = Some ''Staff.Team'',
     col_values = [Some [], Some []]\<rparr>"

definition colMember :: DataViewCategoryColumn where
  "colMember = \<lparr>displayName = Some ''Member'', queryName = Some ''Staff.Member'',
     col_values = [Some ''a'', Some ''b'']\<rparr>"

definition emptyKeyCats :: "ref FilterCategory list" where
  "emptyKeyCats = fst (processData [] [colUnnamed, colMember])"

definition emptyKeyStore :: "ref store" where
  "emptyKeyStore = fst (snd (processData [] [colUnnamed, colMember]))"

text \<open>
  A two-level hierarchy whose second column has blank cells: the rows (FR, Paris),
  (FR, blank), (DE, Paris), (DE, blank).
\<close>

definition colCountry :: DataViewCategoryColumn where
  "colCountry = \<lparr>displayName = Some ''Country'', queryName = Some ''Geo.Country'',
     col_values = [Some ''FR'', Some ''FR'', Some ''DE'', Some ''DE'']\<rparr>"

definition colCity :: DataViewCategoryColumn where
  "colCity = \<lparr>displayName = Some ''City'', queryName = Some ''Geo.City'',
     col_values = [Some ''Paris'', None, Some ''Paris'', None]\<rparr>"

section \<open>Evaluating the partial functions\<close>

lemma cascadeForEach_Nil: "cascadeForEach h [] sel = Some h"
  by (subst cascadeForEach.simps) simp

lemma cascadeForEach_Cons:
  "cascadeForEach h (child # rest) sel =
     Option.bind
       (cascadeForEach (h(child := (h child)\<lparr>selected := sel, indeterminate := False\<rparr>))
          (children (h child)) sel)
       (\<lambda>h2. cascadeForEach h2 rest sel)"
  by (subst cascadeForEach.simps) (simp add: Let_def)

lemma example_levels: "hierarchyLevels (exampleCats ! 0) = Some exampleLevels"
  by code_simp

lemma example_levelled: "levelled exampleLevels exampleStore"
  by code_simp

section \<open>The state machine on the small data view\<close>

text \<open>
  C1. \<^verbatim>\<open>toggleHierarchyValue\<close> flips \<^verbatim>\<open>selected\<close> of the toggled value and never writes its
  \<^verbatim>\<open>indeterminate\<close>: only the descendants (in the cascade) and the ancestors (in the
  recomputation) get that flag cleared. After Apple has been toggled, Fruit is unselected
  and indeterminate; toggling Fruit then leaves it selected and indeterminate at once,
  against the invariant that a selected value is not indeterminate.
\<close>

theorem toggle_leaves_own_indeterminate:
  "map_option (\<lambda>r. (selected (fst r (0, 0, ''Fruit'')), indeterminate (fst r (0, 0, ''Fruit''))))
     (toggleHierarchyValue exampleCats appleStore (0, 0, ''Fruit'') (exampleCats ! 0)) =
     Some (True, True)
   \<and> \<not> selected (appleStore (0, 0, ''Fruit'')) \<and> indeterminate (appleStore (0, 0, ''Fruit''))"
  by code_simp

text \<open>
  C5. \<^verbatim>\<open>toggleSelection\<close> collects the selected identities from the \<^verbatim>\<open>values\<close> arrays
  only, and a hierarchy keeps its values in \<^verbatim>\<open>hierarchyLevels\<close>. With Apple selected in
  the hierarchy, toggling North in the standalone filter sends North alone: Apple is still
  selected in the store and its identity is missing from what is sent.
\<close>

theorem toggleSelection_drops_hierarchy_selection:
  "snd (toggleSelection exampleCats appleStore (1, 0, ''North'') (exampleCats ! 1)) =
     Select [SelectionId colRegion 0]
   \<and> selected (fst (toggleSelection exampleCats appleStore (1, 0, ''North'') (exampleCats ! 1))
        (0, 1, ''Apple''))
   \<and> identity (appleStore (0, 1, ''Apple'')) = SelectionId colItem 0"
  by code_simp

text \<open>
  C6. \<^verbatim>\<open>clearHierarchySelection\<close> writes \<^verbatim>\<open>selected = false\<close> on every value of the
  hierarchy and never writes \<^verbatim>\<open>indeterminate\<close>. With Apple selected and Fruit
  indeterminate, clearing the hierarchy leaves Fruit indeterminate.
\<close>

theorem clearHierarchy_leaves_indeterminate:
  "map_option (\<lambda>r. (selected (fst r (0, 0, ''Fruit'')), indeterminate (fst r (0, 0, ''Fruit''))))
     (clearHierarchySelection exampleCats appleStore (exampleCats ! 0)) = Some (False, True)"
  by code_simp

section \<open>Upward recomputation with an unknown parent key\<close>

lemma findParent_no_match:
  "\<forall>level\<in>set levels. \<forall>v\<in>set (level_values level). value' (h v) \<noteq> pv \<Longrightarrow>
   findParent levels h pv = None"
proof (induction levels)
  case Nil
  then show ?case by simp
next
  case (Cons level levels)
  then have "List.find (\<lambda>v. value' (h v) = pv) (level_values level) = None"
    by (simp add: find_None_iff)
  with Cons show ?case by simp
qed

text \<open>
  C10. When no value of any level of the group has the parent key, the recomputation
  returns at once, without an error, and the store it returns is the store it was given:
  no ancestor higher in the chain is written. This holds at every point of the chain,
  the store and the key being those of that point.
\<close>

theorem updateParent_unknown_key_stops:
  assumes "hierarchyLevels category = Some levels"
    and "\<forall>level\<in>set levels. \<forall>v\<in>set (level_values level). value' (h v) \<noteq> pv"
  shows "updateParentSelectionRecursive category h pv = Some h"
  using assms findParent_no_match [of levels h pv]
  by (subst updateParentSelectionRecursive.simps) simp

text \<open>The witness: the key Stale names no value of the example hierarchy.\<close>

theorem updateParent_unknown_key_stops_witness:
  "updateParentSelectionRecursive (exampleCats ! 0) appleStore ''Stale'' = Some appleStore"
proof -
  have "\<forall>level\<in>set exampleLevels. \<forall>v\<in>set (level_values level). value' (appleStore v) \<noteq> ''Stale''"
    by code_simp
  then show ?thesis
    using updateParent_unknown_key_stops [OF example_levels] by blast
qed

section \<open>Stores of the same shape\<close>

lemma sameShape_refl: "sameShape h h"
  by (simp add: sameShape_def)

lemma sameShape_sym: "sameShape g h \<Longrightarrow> sameShape h g"
  by (simp add: sameShape_def)

lemma sameShape_trans: "sameShape f g \<Longrightarrow> sameShape g h \<Longrightarrow> sameShape f h"
  by (simp add: sameShape_def)

lemma sameShape_mark: "sameShape (mark sel S h) h"
  by (simp add: sameShape_def mark_def)

lemma sameShape_flags:
  "sameShape (h(x := (h x)\<lparr>selected := a\<rparr>)) h"
  by (simp add: sameShape_def)

lemma recomputeParent_fields:
  "value' (recomputeParent h p) = value' (h p)"
  "identity (recomputeParent h p) = identity (h p)"
  "children (recomputeParent h p) = children (h p)"
  "parentValue (recomputeParent h p) = parentValue (h p)"
  by (simp_all add: recomputeParent_def Let_def)

lemma sameShape_recompute: "sameShape (h(p := recomputeParent h p)) h"
  by (simp add: sameShape_def recomputeParent_fields)

lemma find_shape:
  "sameShape g h \<Longrightarrow> List.find (\<lambda>v. value' (g v) = pv) xs = List.find (\<lambda>v. value' (h v) = pv) xs"
  by (rule find_cong) (simp_all add: sameShape_def)

lemma findParent_shape: "sameShape g h \<Longrightarrow> findParent ls g pv = findParent ls h pv"
proof (induction ls)
  case Nil
  then show ?case by simp
next
  case (Cons l ls)
  then show ?case
    by (simp add: find_shape [OF Cons.prems] split: option.splits) (simp add: sameShape_def)
qed

lemma descendant_shape_imp: "descendant g a d \<Longrightarrow> sameShape g h \<Longrightarrow> descendant h a d"
proof (induction rule: descendant.induct)
  case (child c a)
  then show ?case by (auto simp: sameShape_def intro: descendant.child)
next
  case (below c a d)
  then show ?case by (auto simp: sameShape_def intro: descendant.below)
qed

lemma descendant_shape:
  assumes "sameShape g h"
  shows "descendant g a d = descendant h a d"
proof
  assume "descendant g a d"
  then show "descendant h a d" using assms by (rule descendant_shape_imp)
next
  assume "descendant h a d"
  then show "descendant g a d" using sameShape_sym [OF assms] by (rule descendant_shape_imp)
qed

lemma reached_shape_imp: "reached ls g pk p \<Longrightarrow> sameShape g h \<Longrightarrow> reached ls h pk p"
proof (induction rule: reached.induct)
  case (found pk p)
  then show ?case by (auto simp: findParent_shape intro: reached.found)
next
  case (above pk q p)
  have "findParent ls h (the pk) = Some q"
    using above.hyps(2) findParent_shape [OF above.prems] by simp
  moreover have "parentValue (g q) = parentValue (h q)"
    using above.prems by (simp add: sameShape_def)
  ultimately show ?case using above.hyps(1) above.IH [OF above.prems]
    by (auto intro: reached.above)
qed

lemma reached_shape:
  assumes "sameShape g h"
  shows "reached ls g pk p = reached ls h pk p"
proof
  assume "reached ls g pk p"
  then show "reached ls h pk p" using assms by (rule reached_shape_imp)
next
  assume "reached ls h pk p"
  then show "reached ls g pk p" using sameShape_sym [OF assms] by (rule reached_shape_imp)
qed

lemma case_option_ex: "(case x of None \<Rightarrow> False | Some p \<Rightarrow> P p) \<longleftrightarrow> (\<exists>p. x = Some p \<and> P p)"
  by (cases x) auto

lemma levelled_iff:
  "levelled ls h \<longleftrightarrow>
     (\<forall>i<length ls. \<forall>a\<in>set (level_values (ls ! i)).
        (\<forall>c\<in>set (children (h a)). Suc i < length ls \<and> c \<in> set (level_values (ls ! Suc i))) \<and>
        (truthy (parentValue (h a)) \<longrightarrow> 0 < i \<and>
           (\<exists>p. List.find (\<lambda>v. value' (h v) = the (parentValue (h a)))
                  (level_values (ls ! (i - 1))) = Some p \<and> children (h p) \<noteq> [])) \<and>
        (\<forall>j<i. a \<notin> set (level_values (ls ! j))))"
  by (simp add: levelled_def list_all_iff case_option_ex Ball_def)

lemma levelled_children:
  "levelled ls h \<Longrightarrow> i < length ls \<Longrightarrow> a \<in> set (level_values (ls ! i)) \<Longrightarrow>
   c \<in> set (children (h a)) \<Longrightarrow> Suc i < length ls \<and> c \<in> set (level_values (ls ! Suc i))"
  unfolding levelled_iff by blast

lemma levelled_parent:
  "levelled ls h \<Longrightarrow> i < length ls \<Longrightarrow> a \<in> set (level_values (ls ! i)) \<Longrightarrow>
   truthy (parentValue (h a)) \<Longrightarrow>
   0 < i \<and> (\<exists>p. List.find (\<lambda>v. value' (h v) = the (parentValue (h a)))
                  (level_values (ls ! (i - 1))) = Some p \<and> children (h p) \<noteq> [])"
  unfolding levelled_iff by blast

lemma levelled_disjoint:
  assumes "levelled ls h" "i < length ls" "j < length ls"
    "a \<in> set (level_values (ls ! i))" "a \<in> set (level_values (ls ! j))"
  shows "i = j"
proof (rule ccontr)
  assume "i \<noteq> j"
  then consider "i < j" | "j < i" by linarith
  then show False
  proof cases
    case 1
    with assms(1,3,5,4) show False unfolding levelled_iff by blast
  next
    case 2
    with assms(1,2,4,5) show False unfolding levelled_iff by blast
  qed
qed

lemma descendant_level:
  assumes "levelled ls h"
  shows "descendant h a d \<Longrightarrow> i < length ls \<Longrightarrow> a \<in> set (level_values (ls ! i)) \<Longrightarrow>
         \<exists>k. i < k \<and> k < length ls \<and> d \<in> set (level_values (ls ! k))"
proof (induction arbitrary: i rule: descendant.induct)
  case (child c a)
  then show ?case using levelled_children [OF assms] by (metis lessI)
next
  case (below c a d)
  from levelled_children [OF assms below.prems(1,2) below.hyps(1)]
  have "Suc i < length ls" "c \<in> set (level_values (ls ! Suc i))" by simp_all
  from below.IH [OF this] show ?case by (metis Suc_lessD)
qed

section \<open>The cascade in closed form\<close>

text \<open>
  On a levelled store the cascade over a list of children returns, and what it returns is
  the store with both flags set on those children and on all their descendants.
\<close>

lemma mark_empty: "mark sel {} h = h"
  by (simp add: mark_def)

lemma mark_mark: "mark sel A (mark sel B h) = mark sel (A \<union> B) h"
  by (rule ext) (simp add: mark_def)

lemma upd_is_mark:
  "h(c := (h c)\<lparr>selected := sel, indeterminate := False\<rparr>) = mark sel {c} h"
  by (rule ext) (simp add: mark_def)

lemma under_empty: "under h {} = {}"
  by (simp add: under_def)

lemma descendant_unfold:
  "descendant h a d \<longleftrightarrow> d \<in> under h (set (children (h a)))"
  unfolding under_def
  by (auto intro: descendant.intros elim: descendant.cases)

lemma under_insert:
  "under h (insert c S) = insert c (under h (set (children (h c)))) \<union> under h S"
  unfolding under_def using descendant_unfold [of h c] unfolding under_def by auto

lemma cascade_closed:
  assumes lv: "levelled ls h0"
  shows "length ls - i \<le> n \<Longrightarrow> sameShape h h0 \<Longrightarrow> i < length ls \<Longrightarrow>
         set cs \<subseteq> set (level_values (ls ! i)) \<Longrightarrow>
         cascadeForEach h cs sel = Some (mark sel (under h0 (set cs)) h)"
proof (induction n arbitrary: i h cs)
  case 0
  then show ?case by simp
next
  case (Suc n)
  from Suc.prems(2,4) show ?case
  proof (induction cs arbitrary: h)
    case Nil
    then show ?case by (simp add: cascadeForEach_Nil under_empty mark_empty)
  next
    case (Cons c rest)
    let ?h1 = "h(c := (h c)\<lparr>selected := sel, indeterminate := False\<rparr>)"
    have h1: "?h1 = mark sel {c} h" by (rule upd_is_mark)
    have s1: "sameShape ?h1 h0"
      unfolding h1 using sameShape_mark Cons.prems(1) sameShape_trans by blast
    have kc: "children (h c) = children (h0 c)"
      using Cons.prems(1) by (simp add: sameShape_def)
    have cin: "c \<in> set (level_values (ls ! i))" using Cons.prems(2) by simp
    have first: "cascadeForEach ?h1 (children (h0 c)) sel =
        Some (mark sel (under h0 (set (children (h0 c)))) ?h1)"
    proof (cases "children (h0 c) = []")
      case True
      then show ?thesis by (simp add: cascadeForEach_Nil under_empty mark_empty)
    next
      case False
      then obtain k where "k \<in> set (children (h0 c))" by (cases "children (h0 c)") auto
      from levelled_children [OF lv Suc.prems(3) cin this]
      have si: "Suc i < length ls" by simp
      have sub: "set (children (h0 c)) \<subseteq> set (level_values (ls ! Suc i))"
        using levelled_children [OF lv Suc.prems(3) cin] by blast
      have "length ls - Suc i \<le> n" using Suc.prems(1) si by linarith
      from Suc.IH [OF this s1 si sub] show ?thesis .
    qed
    let ?h2 = "mark sel (under h0 (set (children (h0 c)))) ?h1"
    have s2: "sameShape ?h2 h0"
      using sameShape_mark s1 sameShape_trans by blast
    have rest: "cascadeForEach ?h2 rest sel = Some (mark sel (under h0 (set rest)) ?h2)"
      using Cons.IH [OF s2] Cons.prems(2) by simp
    have "cascadeForEach h (c # rest) sel = Some (mark sel (under h0 (set rest)) ?h2)"
      by (simp add: cascadeForEach_Cons kc first rest)
    also have "mark sel (under h0 (set rest)) ?h2 =
        mark sel (under h0 (set rest) \<union> (under h0 (set (children (h0 c))) \<union> {c})) h"
      unfolding h1 mark_mark ..
    also have "under h0 (set rest) \<union> (under h0 (set (children (h0 c))) \<union> {c}) =
        under h0 (set (c # rest))"
      unfolding list.set under_insert by blast
    finally show ?case .
  qed
qed

section \<open>The chain of ancestors\<close>

lemma flags_eq:
  "sameShape a b \<Longrightarrow>
   (a x)\<lparr>selected := s, indeterminate := t\<rparr> = (b x)\<lparr>selected := s, indeterminate := t\<rparr>"
  by (rule FilterValue.equality) (simp_all add: sameShape_def)

lemma recompute_cong:
  assumes sh: "sameShape a b" and kids: "\<forall>c\<in>set (children (b p)). a c = b c"
  shows "recomputeParent a p = recomputeParent b p"
proof -
  have ch: "children (a p) = children (b p)" using sh by (simp add: sameShape_def)
  have A: "list_all (\<lambda>c. selected (a c)) (children (b p)) =
           list_all (\<lambda>c. selected (b c)) (children (b p))"
    using kids by (simp add: list_all_iff)
  have B: "list_ex (\<lambda>c. selected (a c) \<or> indeterminate (a c)) (children (b p)) =
           list_ex (\<lambda>c. selected (b c) \<or> indeterminate (b c)) (children (b p))"
    using kids by (simp add: list_ex_iff)
  show ?thesis
    by (simp add: recomputeParent_def Let_def ch A B flags_eq [OF sh])
qed

lemma levelled_shape:
  assumes "sameShape g h" "levelled ls h"
  shows "levelled ls g"
proof -
  have c: "\<And>x. children (g x) = children (h x)" and p: "\<And>x. parentValue (g x) = parentValue (h x)"
    using assms(1) by (simp_all add: sameShape_def)
  show ?thesis
    using assms(2) unfolding levelled_iff c p find_shape [OF assms(1)] .
qed

lemma reached_truthy: "reached ls h pk p \<Longrightarrow> truthy pk"
  by (erule reached.cases) simp_all

lemma reached_step:
  "reached ls h pk p \<Longrightarrow> findParent ls h (the pk) = Some q \<Longrightarrow>
   p = q \<or> reached ls h (parentValue (h q)) p"
  by (erule reached.cases) auto

lemma find_Some_mem: "List.find P xs = Some x \<Longrightarrow> x \<in> set xs"
  by (auto simp: find_Some_iff)

lemma findParent_SomeD:
  "findParent ls h pv = Some p \<Longrightarrow>
   \<exists>j<length ls. p \<in> set (level_values (ls ! j)) \<and> children (h p) \<noteq> []"
proof (induction ls)
  case Nil
  then show ?case by simp
next
  case (Cons l ls)
  show ?case
  proof (cases "List.find (\<lambda>v. value' (h v) = pv) (level_values l)")
    case None
    with Cons.prems have "findParent ls h pv = Some p" by simp
    from Cons.IH [OF this] obtain j where "j < length ls" "p \<in> set (level_values (ls ! j))"
      "children (h p) \<noteq> []" by blast
    then have "Suc j < length (l # ls) \<and> p \<in> set (level_values ((l # ls) ! Suc j)) \<and> children (h p) \<noteq> []"
      by simp
    then show ?thesis by blast
  next
    case (Some q)
    show ?thesis
    proof (cases "children (h q) \<noteq> []")
      case True
      with Some Cons.prems have "p = q" by simp
      with Some True have "0 < length (l # ls) \<and> p \<in> set (level_values ((l # ls) ! 0)) \<and> children (h p) \<noteq> []"
        by (simp add: find_Some_mem)
      then show ?thesis by blast
    next
      case False
      with Some Cons.prems have "findParent ls h pv = Some p" by simp
      from Cons.IH [OF this] obtain j where "j < length ls" "p \<in> set (level_values (ls ! j))"
        "children (h p) \<noteq> []" by blast
      then have "Suc j < length (l # ls) \<and> p \<in> set (level_values ((l # ls) ! Suc j)) \<and> children (h p) \<noteq> []"
        by simp
      then show ?thesis by blast
    qed
  qed
qed

lemma findParent_bound:
  "j < length ls \<Longrightarrow> List.find (\<lambda>v. value' (h v) = pv) (level_values (ls ! j)) = Some p' \<Longrightarrow>
   children (h p') \<noteq> [] \<Longrightarrow>
   \<exists>j' p. j' \<le> j \<and> findParent ls h pv = Some p \<and> p \<in> set (level_values (ls ! j'))"
proof (induction ls arbitrary: j)
  case Nil
  then show ?case by simp
next
  case (Cons l ls)
  let ?f = "List.find (\<lambda>v. value' (h v) = pv) (level_values l)"
  show ?case
  proof (cases "\<exists>q. ?f = Some q \<and> children (h q) \<noteq> []")
    case True
    then obtain q where q: "?f = Some q" "children (h q) \<noteq> []" by blast
    then have "(0::nat) \<le> j \<and> findParent (l # ls) h pv = Some q \<and> q \<in> set (level_values ((l # ls) ! 0))"
      by (simp add: find_Some_mem)
    then show ?thesis by blast
  next
    case False
    then have fp: "findParent (l # ls) h pv = findParent ls h pv"
      by (auto split: option.splits)
    from False Cons.prems(2,3) have "j \<noteq> 0" by (cases j) auto
    then obtain j0 where j0: "j = Suc j0" by (cases j) auto
    with Cons.prems have "j0 < length ls"
      "List.find (\<lambda>v. value' (h v) = pv) (level_values (ls ! j0)) = Some p'" by simp_all
    from Cons.IH [OF this Cons.prems(3)] obtain j' p where
      "j' \<le> j0" "findParent ls h pv = Some p" "p \<in> set (level_values (ls ! j'))" by blast
    then have "Suc j' \<le> j \<and> findParent (l # ls) h pv = Some p \<and>
        p \<in> set (level_values ((l # ls) ! Suc j'))"
      using j0 fp by simp
    then show ?thesis by blast
  qed
qed

lemma parent_found:
  assumes lv: "levelled ls h" and i: "i < length ls" and a: "a \<in> set (level_values (ls ! i))"
    and t: "truthy (parentValue (h a))"
  shows "\<exists>j q. j < i \<and> findParent ls h (the (parentValue (h a))) = Some q \<and>
           q \<in> set (level_values (ls ! j))"
proof -
  from levelled_parent [OF lv i a t] obtain p' where i0: "0 < i"
    and f: "List.find (\<lambda>v. value' (h v) = the (parentValue (h a))) (level_values (ls ! (i - 1))) = Some p'"
    and c: "children (h p') \<noteq> []" by blast
  have "i - 1 < length ls" using i by simp
  from findParent_bound [OF this f c] obtain j q where
    "j \<le> i - 1" "findParent ls h (the (parentValue (h a))) = Some q" "q \<in> set (level_values (ls ! j))"
    by blast
  moreover from this i0 have "j < i" by simp
  ultimately show ?thesis by blast
qed

lemma reached_level:
  assumes lv: "levelled ls h"
  shows "i < length ls \<Longrightarrow> a \<in> set (level_values (ls ! i)) \<Longrightarrow>
         reached ls h (parentValue (h a)) p \<Longrightarrow>
         \<exists>j<i. p \<in> set (level_values (ls ! j))"
proof (induction i arbitrary: a rule: less_induct)
  case (less i)
  from less.prems(3) have t: "truthy (parentValue (h a))" by (rule reached_truthy)
  from parent_found [OF lv less.prems(1,2) t] obtain j q where
    j: "j < i" and fp: "findParent ls h (the (parentValue (h a))) = Some q"
    and q: "q \<in> set (level_values (ls ! j))" by blast
  from less.prems(3) fp have "p = q \<or> reached ls h (parentValue (h q)) p"
    by (rule reached_step)
  then show ?case
  proof
    assume "p = q"
    with j q show ?thesis by blast
  next
    assume r: "reached ls h (parentValue (h q)) p"
    have "j < length ls" using j less.prems(1) by simp
    from less.IH [OF j this q r] obtain k where "k < j" "p \<in> set (level_values (ls ! k))" by blast
    with j have "k < i \<and> p \<in> set (level_values (ls ! k))" by simp
    then show ?thesis by blast
  qed
qed

lemma reached_children: "reached ls h pk p \<Longrightarrow> children (h p) \<noteq> []"
proof (induction rule: reached.induct)
  case (found pk p)
  from findParent_SomeD [OF found(2)] show ?case by blast
next
  case (above pk q p)
  then show ?case by simp
qed

lemma updateFrom_unfold:
  assumes "hierarchyLevels category = Some ls"
  shows "updateFrom category h pk =
     (if truthy pk then
        (case findParent ls h (the pk) of
           None \<Rightarrow> Some h
         | Some p \<Rightarrow> updateFrom category (h(p := recomputeParent h p)) (parentValue (h p)))
      else Some h)"
proof (cases "truthy pk")
  case False
  then show ?thesis by (simp add: updateFrom_def)
next
  case True
  have "updateFrom category h pk = updateParentSelectionRecursive category h (the pk)"
    using True by (simp add: updateFrom_def)
  also have "\<dots> = (case findParent ls h (the pk) of
           None \<Rightarrow> Some h
         | Some p \<Rightarrow> updateFrom category (h(p := recomputeParent h p)) (parentValue (h p)))"
    by (subst updateParentSelectionRecursive.simps)
       (simp add: assms Let_def recomputeParent_fields updateFrom_def split: option.splits)
  finally show ?thesis using True by simp
qed

text \<open>
  On a levelled store the upward recomputation returns; it writes the reached ancestors
  only, and leaves each of them in the state that the tri-state rule gives it from its
  children in the final store.
\<close>

lemma update_chain:
  assumes cat: "hierarchyLevels category = Some ls" and lv: "levelled ls h0"
  shows "sameShape h h0 \<Longrightarrow> i < length ls \<Longrightarrow> a \<in> set (level_values (ls ! i)) \<Longrightarrow>
     \<exists>h'. updateFrom category h (parentValue (h0 a)) = Some h' \<and> sameShape h' h \<and>
          (\<forall>x. \<not> reached ls h0 (parentValue (h0 a)) x \<longrightarrow> h' x = h x) \<and>
          (\<forall>p. reached ls h0 (parentValue (h0 a)) p \<longrightarrow> h' p = recomputeParent h' p)"
proof (induction i arbitrary: h a rule: less_induct)
  case (less i)
  let ?pk = "parentValue (h0 a)"
  show ?case
  proof (cases "truthy ?pk")
    case False
    have nr: "\<not> reached ls h0 ?pk x" for x using False reached_truthy [of ls h0 ?pk x] by blast
    have "updateFrom category h ?pk = Some h" using False by (simp add: updateFrom_def)
    with nr sameShape_refl [of h] show ?thesis by simp
  next
    case True
    from parent_found [OF lv less.prems(2,3) True] obtain j q where
      j: "j < i" and fp: "findParent ls h0 (the ?pk) = Some q"
      and q: "q \<in> set (level_values (ls ! j))" by blast
    have jl: "j < length ls" using j less.prems(2) by simp
    have fph: "findParent ls h (the ?pk) = Some q"
      using findParent_shape [OF less.prems(1)] fp by simp
    let ?h1 = "h(q := recomputeParent h q)"
    have s1h: "sameShape ?h1 h" by (rule sameShape_recompute)
    have s1: "sameShape ?h1 h0" using s1h less.prems(1) by (rule sameShape_trans)
    have pq: "parentValue (h q) = parentValue (h0 q)"
      using less.prems(1) by (simp add: sameShape_def)
    have cq: "children (h q) = children (h0 q)"
      using less.prems(1) by (simp add: sameShape_def)
    from less.IH [OF j s1 jl q] obtain h' where
      u: "updateFrom category ?h1 (parentValue (h0 q)) = Some h'"
      and sh: "sameShape h' ?h1"
      and loc: "\<And>x. \<not> reached ls h0 (parentValue (h0 q)) x \<Longrightarrow> h' x = ?h1 x"
      and con: "\<And>p. reached ls h0 (parentValue (h0 q)) p \<Longrightarrow> h' p = recomputeParent h' p"
      by blast
    have unf: "updateFrom category h ?pk = Some h'"
      by (subst updateFrom_unfold [OF cat]) (simp add: True fph pq u)
    have shh: "sameShape h' h" using sh s1h by (rule sameShape_trans)
    have lev: "\<And>p. reached ls h0 (parentValue (h0 q)) p \<Longrightarrow> \<exists>k<j. p \<in> set (level_values (ls ! k))"
      using reached_level [OF lv jl q] by blast
    have qnot: "\<not> reached ls h0 (parentValue (h0 q)) q"
    proof
      assume "reached ls h0 (parentValue (h0 q)) q"
      from lev [OF this] obtain k where k: "k < j" "q \<in> set (level_values (ls ! k))" by blast
      then have "k < length ls" using jl by simp
      from levelled_disjoint [OF lv this jl k(2) q] k(1) show False by simp
    qed
    have hq: "h' q = recomputeParent h q" using loc [OF qnot] by simp
    have kids: "\<forall>c\<in>set (children (h q)). h' c = h c"
    proof
      fix c assume "c \<in> set (children (h q))"
      then have c: "c \<in> set (children (h0 q))" using cq by simp
      from levelled_children [OF lv jl q c]
      have sj: "Suc j < length ls" and cl: "c \<in> set (level_values (ls ! Suc j))" by simp_all
      have "c \<noteq> q" using levelled_disjoint [OF lv sj jl cl] q by auto
      moreover have "\<not> reached ls h0 (parentValue (h0 q)) c"
      proof
        assume "reached ls h0 (parentValue (h0 q)) c"
        from lev [OF this] obtain k where k: "k < j" "c \<in> set (level_values (ls ! k))" by blast
        then have "k < length ls" using jl by simp
        from levelled_disjoint [OF lv this sj k(2) cl] k(1) show False by simp
      qed
      ultimately show "h' c = h c" using loc by simp
    qed
    have rq: "recomputeParent h' q = recomputeParent h q"
      using shh kids by (rule recompute_cong)
    have split: "\<And>x. reached ls h0 ?pk x \<Longrightarrow> x = q \<or> reached ls h0 (parentValue (h0 q)) x"
      using fp by (rule reached_step [rotated])
    have intro1: "reached ls h0 ?pk q" using True fp by (rule reached.found)
    have intro2: "\<And>x. reached ls h0 (parentValue (h0 q)) x \<Longrightarrow> reached ls h0 ?pk x"
      using True fp by (rule reached.above)
    have "\<forall>x. \<not> reached ls h0 ?pk x \<longrightarrow> h' x = h x"
    proof (intro allI impI)
      fix x assume n: "\<not> reached ls h0 ?pk x"
      then have "x \<noteq> q" using intro1 by blast
      moreover have "\<not> reached ls h0 (parentValue (h0 q)) x" using n intro2 by blast
      ultimately show "h' x = h x" using loc by simp
    qed
    moreover have "\<forall>p. reached ls h0 ?pk p \<longrightarrow> h' p = recomputeParent h' p"
    proof (intro allI impI)
      fix p assume "reached ls h0 ?pk p"
      from split [OF this] show "h' p = recomputeParent h' p"
      proof
        assume "p = q"
        then show ?thesis using hq rq by simp
      next
        assume "reached ls h0 (parentValue (h0 q)) p"
        then show ?thesis by (rule con)
      qed
    qed
    ultimately show ?thesis using unf shh by blast
  qed
qed

lemma chain_unique:
  assumes lv: "levelled ls h0"
  shows "sameShape a b \<Longrightarrow> sameShape b h0 \<Longrightarrow> i < length ls \<Longrightarrow>
     n \<in> set (level_values (ls ! i)) \<Longrightarrow>
     (\<And>x. \<not> reached ls h0 (parentValue (h0 n)) x \<Longrightarrow> a x = b x) \<Longrightarrow>
     (\<And>p. reached ls h0 (parentValue (h0 n)) p \<Longrightarrow> a p = recomputeParent a p) \<Longrightarrow>
     (\<And>p. reached ls h0 (parentValue (h0 n)) p \<Longrightarrow> b p = recomputeParent b p) \<Longrightarrow>
     a = b"
proof (induction i arbitrary: n rule: less_induct)
  case (less i)
  let ?pk = "parentValue (h0 n)"
  show ?case
  proof (cases "truthy ?pk")
    case False
    have "\<not> reached ls h0 ?pk x" for x using False reached_truthy [of ls h0 ?pk x] by blast
    then have "a x = b x" for x by (rule less.prems(5))
    then show ?thesis by (rule ext)
  next
    case True
    from parent_found [OF lv less.prems(3,4) True] obtain j q where
      j: "j < i" and fp: "findParent ls h0 (the ?pk) = Some q"
      and q: "q \<in> set (level_values (ls ! j))" by blast
    have jl: "j < length ls" using j less.prems(3) by simp
    have intro1: "reached ls h0 ?pk q" using True fp by (rule reached.found)
    have intro2: "\<And>x. reached ls h0 (parentValue (h0 q)) x \<Longrightarrow> reached ls h0 ?pk x"
      using True fp by (rule reached.above)
    have split: "\<And>x. reached ls h0 ?pk x \<Longrightarrow> x = q \<or> reached ls h0 (parentValue (h0 q)) x"
      using fp by (rule reached_step [rotated])
    have lev: "\<And>p. reached ls h0 ?pk p \<Longrightarrow> \<exists>k\<le>j. p \<in> set (level_values (ls ! k))"
    proof -
      fix p assume "reached ls h0 ?pk p"
      from split [OF this] show "\<exists>k\<le>j. p \<in> set (level_values (ls ! k))"
      proof
        assume "p = q" with q show ?thesis by blast
      next
        assume "reached ls h0 (parentValue (h0 q)) p"
        from reached_level [OF lv jl q this] obtain k where "k < j" "p \<in> set (level_values (ls ! k))"
          by blast
        then have "k \<le> j \<and> p \<in> set (level_values (ls ! k))" by simp
        then show ?thesis by blast
      qed
    qed
    have cq: "children (b q) = children (h0 q)" using less.prems(2) by (simp add: sameShape_def)
    have kids: "\<forall>c\<in>set (children (b q)). a c = b c"
    proof
      fix c assume "c \<in> set (children (b q))"
      then have c: "c \<in> set (children (h0 q))" using cq by simp
      from levelled_children [OF lv jl q c]
      have sj: "Suc j < length ls" and cl: "c \<in> set (level_values (ls ! Suc j))" by simp_all
      have "\<not> reached ls h0 ?pk c"
      proof
        assume "reached ls h0 ?pk c"
        from lev [OF this] obtain k where k: "k \<le> j" "c \<in> set (level_values (ls ! k))" by blast
        then have "k < length ls" using jl by simp
        from levelled_disjoint [OF lv this sj k(2) cl] k(1) show False by simp
      qed
      then show "a c = b c" by (rule less.prems(5))
    qed
    have "recomputeParent a q = recomputeParent b q"
      using less.prems(1) kids by (rule recompute_cong)
    then have aq: "a q = b q" using less.prems(6) [OF intro1] less.prems(7) [OF intro1] by simp
    show ?thesis
    proof (rule less.IH [OF j less.prems(1,2) jl q])
      fix x assume n: "\<not> reached ls h0 (parentValue (h0 q)) x"
      show "a x = b x"
      proof (cases "x = q")
        case True then show ?thesis using aq by simp
      next
        case False
        then have "\<not> reached ls h0 ?pk x" using n split by blast
        then show ?thesis by (rule less.prems(5))
      qed
    next
      fix p assume "reached ls h0 (parentValue (h0 q)) p"
      then show "a p = recomputeParent a p" using less.prems(6) intro2 by blast
    next
      fix p assume "reached ls h0 (parentValue (h0 q)) p"
      then show "b p = recomputeParent b p" using less.prems(7) intro2 by blast
    qed
  qed
qed

section \<open>The effect of a toggle on a levelled hierarchy\<close>

lemma recompute_flags:
  "selected (recomputeParent h p) = (\<forall>c\<in>set (children (h p)). selected (h c))"
  "indeterminate (recomputeParent h p) =
     (\<not> (\<forall>c\<in>set (children (h p)). selected (h c)) \<and>
      (\<exists>c\<in>set (children (h p)). selected (h c) \<or> indeterminate (h c)))"
  by (simp_all add: recomputeParent_def Let_def list_all_iff list_ex_iff)

lemma toggle_result:
  assumes cat: "hierarchyLevels category = Some ls" and lv: "levelled ls h"
    and i: "i < length ls" and n: "n \<in> set (level_values (ls ! i))"
  shows "\<exists>h3 e. toggleHierarchyValue cats h n category = Some (h3, e) \<and> sameShape h3 h \<and>
      h3 n = (h n)\<lparr>selected := \<not> selected (h n)\<rparr> \<and>
      (\<forall>d. descendant h n d \<longrightarrow>
         h3 d = (h d)\<lparr>selected := \<not> selected (h n), indeterminate := False\<rparr>) \<and>
      (\<forall>p. reached ls h (parentValue (h n)) p \<longrightarrow> h3 p = recomputeParent h3 p) \<and>
      (\<forall>x. x \<noteq> n \<and> \<not> descendant h n x \<and> \<not> reached ls h (parentValue (h n)) x \<longrightarrow> h3 x = h x)"
proof -
  let ?v = "\<not> selected (h n)"
  let ?h1 = "h(n := (h n)\<lparr>selected := ?v\<rparr>)"
  let ?D = "under h (set (children (h n)))"
  let ?h2 = "mark ?v ?D ?h1"
  let ?E = "\<lambda>h3. emit (levelsSelectedIds h3 ls @
                  concat (map (\<lambda>cat. selectedIds h3 (cat_values cat))
                    (filter (\<lambda>cat. cat_name cat \<noteq> cat_name category) cats)))"
  have s1: "sameShape ?h1 h" by (rule sameShape_flags)
  have c1: "children (?h1 n) = children (h n)" by simp
  have casc: "cascadeSelectionToDescendants ?h1 n ?v = Some ?h2"
  proof (cases "children (h n) = []")
    case True
    then show ?thesis
      unfolding cascadeSelectionToDescendants_def c1
      by (simp add: cascadeForEach_Nil under_empty mark_empty)
  next
    case False
    then obtain k where "k \<in> set (children (h n))" by (cases "children (h n)") auto
    from levelled_children [OF lv i n this] have si: "Suc i < length ls" by simp
    have sub: "set (children (h n)) \<subseteq> set (level_values (ls ! Suc i))"
      using levelled_children [OF lv i n] by blast
    from cascade_closed [OF lv order_refl s1 si sub]
    show ?thesis unfolding cascadeSelectionToDescendants_def c1 .
  qed
  have Dd: "d \<in> ?D \<longleftrightarrow> descendant h n d" for d by (simp add: descendant_unfold)
  have above_n: "\<not> descendant h n x" if "x \<in> set (level_values (ls ! k))" "k \<le> i" for x k
  proof
    assume "descendant h n x"
    from descendant_level [OF lv this i n] obtain m where
      m: "i < m" "m < length ls" "x \<in> set (level_values (ls ! m))" by blast
    have "k < length ls" using that(2) i by simp
    from levelled_disjoint [OF lv this m(2) that(1) m(3)] m(1) that(2) show False by simp
  qed
  have nD: "n \<notin> ?D" using above_n [OF n order_refl] Dd by simp
  have s2: "sameShape ?h2 h" using sameShape_mark s1 by (rule sameShape_trans)
  have pv2: "parentValue (?h2 n) = parentValue (h n)" using s2 by (simp add: sameShape_def)
  from update_chain [OF cat lv s2 i n] obtain h3 where
    u: "updateFrom category ?h2 (parentValue (h n)) = Some h3"
    and sh3: "sameShape h3 ?h2"
    and loc: "\<And>x. \<not> reached ls h (parentValue (h n)) x \<Longrightarrow> h3 x = ?h2 x"
    and con: "\<And>p. reached ls h (parentValue (h n)) p \<Longrightarrow> h3 p = recomputeParent h3 p"
    by blast
  have t0: "toggleHierarchyValue cats h n category =
      Option.bind (cascadeSelectionToDescendants ?h1 n ?v) (\<lambda>h2.
        Option.bind (updateFrom category h2 (parentValue (h2 n))) (\<lambda>h3. Some (h3, ?E h3)))"
    unfolding toggleHierarchyValue_def updateFrom_def Let_def cat by simp
  have tog: "toggleHierarchyValue cats h n category = Some (h3, ?E h3)"
    unfolding t0 casc by (simp only: bind.bind_lunit pv2 u)
  have below_i: "\<not> reached ls h (parentValue (h n)) x"
    if "x \<in> set (level_values (ls ! k))" "i \<le> k" "k < length ls" for x k
  proof
    assume "reached ls h (parentValue (h n)) x"
    from reached_level [OF lv i n this] obtain j where j: "j < i" "x \<in> set (level_values (ls ! j))"
      by blast
    then have "j < length ls" using i by simp
    from levelled_disjoint [OF lv this that(3) j(2) that(1)] j(1) that(2) show False by simp
  qed
  have r3: "sameShape h3 h" using sh3 s2 by (rule sameShape_trans)
  have rn: "h3 n = (h n)\<lparr>selected := ?v\<rparr>"
    using loc [OF below_i [OF n order_refl i]] nD by (simp add: mark_def)
  have rd: "h3 d = (h d)\<lparr>selected := ?v, indeterminate := False\<rparr>" if d: "descendant h n d" for d
  proof -
    from descendant_level [OF lv d i n] obtain m where
      m: "i < m" "m < length ls" "d \<in> set (level_values (ls ! m))" by blast
    have "d \<noteq> n" using levelled_disjoint [OF lv m(2) i m(3)] n m(1) by auto
    moreover have "\<not> reached ls h (parentValue (h n)) d"
      using below_i [OF m(3) _ m(2)] m(1) by simp
    ultimately show ?thesis using loc d Dd by (simp add: mark_def)
  qed
  have ro: "h3 x = h x"
    if "x \<noteq> n" "\<not> descendant h n x" "\<not> reached ls h (parentValue (h n)) x" for x
    using loc [OF that(3)] that(1,2) Dd by (simp add: mark_def)
  from tog r3 rn rd con ro show ?thesis by blast
qed

lemma example_level0: "(0::nat) < length exampleLevels"
  by (simp add: exampleLevels_def)

lemma example_fruit: "(0, 0, ''Fruit'') \<in> set (level_values (exampleLevels ! 0))"
  by (simp add: exampleLevels_def)

lemma deep_levels: "hierarchyLevels (deepCats ! 0) = Some deepLevels"
  by code_simp

lemma deep_levelled: "levelled deepLevels deepStore"
  by code_simp

lemma deep_level1: "(1::nat) < length deepLevels"
  by (simp add: deepLevels_def)

lemma deep_fruit: "(0, 1, ''Fruit'') \<in> set (level_values (deepLevels ! 1))"
  by (simp add: deepLevels_def)

lemma consistentI:
  "selected (h p) = selected (recomputeParent h p) \<Longrightarrow>
   indeterminate (h p) = indeterminate (recomputeParent h p) \<Longrightarrow> h p = recomputeParent h p"
  by (rule FilterValue.equality) (simp_all add: recomputeParent_fields)

lemma descendant_has_children: "descendant h a d \<Longrightarrow> children (h a) \<noteq> []"
  by (erule descendant.cases) auto

text \<open>
  C3. On a hierarchy as the tree builder shapes it, toggling a value returns, and in the
  store it returns every strict descendant of the value has the new selected state of the
  toggled value (the negation of its old one) and is not indeterminate.
\<close>

theorem toggle_cascades_to_descendants:
  assumes "hierarchyLevels category = Some levels" and "levelled levels h"
    and "i < length levels" and "n \<in> set (level_values (levels ! i))"
  shows "\<exists>h' e. toggleHierarchyValue cats h n category = Some (h', e) \<and>
           (\<forall>d. descendant h n d \<longrightarrow>
              selected (h' d) = (\<not> selected (h n)) \<and> \<not> indeterminate (h' d))"
proof -
  from toggle_result [OF assms, of cats] obtain h' e where
    t: "toggleHierarchyValue cats h n category = Some (h', e)"
    and d: "\<And>d. descendant h n d \<Longrightarrow>
         h' d = (h d)\<lparr>selected := \<not> selected (h n), indeterminate := False\<rparr>"
    by blast
  have "selected (h' d) = (\<not> selected (h n)) \<and> \<not> indeterminate (h' d)" if "descendant h n d" for d
    using d [OF that] by simp
  with t show ?thesis by blast
qed

text \<open>The witness: toggling Fruit in the fresh example selects Apple.\<close>

theorem toggle_cascades_to_descendants_witness:
  "\<exists>h' e. toggleHierarchyValue exampleCats exampleStore (0, 0, ''Fruit'') (exampleCats ! 0) = Some (h', e) \<and>
     selected (h' (0, 1, ''Apple'')) \<and> \<not> indeterminate (h' (0, 1, ''Apple''))"
proof -
  have d: "descendant exampleStore (0, 0, ''Fruit'') (0, 1, ''Apple'')"
    by (rule descendant.child) code_simp
  have s: "\<not> selected (exampleStore (0, 0, ''Fruit''))" by code_simp
  from toggle_cascades_to_descendants [OF example_levels example_levelled example_level0 example_fruit,
      of exampleCats] d s
  show ?thesis by blast
qed

text \<open>
  What the recomputation does guarantee. On a hierarchy as the tree builder shapes it,
  toggling a value returns, and in the store it returns every value that the lookup of
  the recomputation reaches from the parent key of the toggled value has children and
  carries the state that its immediate children give it: selected and not indeterminate
  when all of them are selected; unselected and not indeterminate when none of them is
  selected or indeterminate; unselected and indeterminate otherwise.
\<close>

lemma toggle_recomputes_reached:
  assumes "hierarchyLevels category = Some levels" and "levelled levels h"
    and "i < length levels" and "n \<in> set (level_values (levels ! i))"
  shows "\<exists>h' e. toggleHierarchyValue cats h n category = Some (h', e) \<and>
           (\<forall>p. reached levels h (parentValue (h n)) p \<longrightarrow>
              children (h' p) \<noteq> [] \<and>
              ((\<forall>c\<in>set (children (h' p)). selected (h' c)) \<longrightarrow>
                 selected (h' p) \<and> \<not> indeterminate (h' p)) \<and>
              ((\<forall>c\<in>set (children (h' p)). \<not> selected (h' c) \<and> \<not> indeterminate (h' c)) \<longrightarrow>
                 \<not> selected (h' p) \<and> \<not> indeterminate (h' p)) \<and>
              (\<not> (\<forall>c\<in>set (children (h' p)). selected (h' c)) \<and>
               \<not> (\<forall>c\<in>set (children (h' p)). \<not> selected (h' c) \<and> \<not> indeterminate (h' c)) \<longrightarrow>
                 \<not> selected (h' p) \<and> indeterminate (h' p)))"
proof -
  from toggle_result [OF assms, of cats] obtain h' e where
    t: "toggleHierarchyValue cats h n category = Some (h', e)"
    and s: "sameShape h' h"
    and r: "\<And>p. reached levels h (parentValue (h n)) p \<Longrightarrow> h' p = recomputeParent h' p"
    by blast
  have "children (h' p) \<noteq> [] \<and>
        ((\<forall>c\<in>set (children (h' p)). selected (h' c)) \<longrightarrow>
           selected (h' p) \<and> \<not> indeterminate (h' p)) \<and>
        ((\<forall>c\<in>set (children (h' p)). \<not> selected (h' c) \<and> \<not> indeterminate (h' c)) \<longrightarrow>
           \<not> selected (h' p) \<and> \<not> indeterminate (h' p)) \<and>
        (\<not> (\<forall>c\<in>set (children (h' p)). selected (h' c)) \<and>
         \<not> (\<forall>c\<in>set (children (h' p)). \<not> selected (h' c) \<and> \<not> indeterminate (h' c)) \<longrightarrow>
           \<not> selected (h' p) \<and> indeterminate (h' p))"
    if p: "reached levels h (parentValue (h n)) p" for p
  proof -
    have "children (h p) \<noteq> []" using p by (rule reached_children)
    then have ne: "children (h' p) \<noteq> []" using s by (simp add: sameShape_def)
    then obtain c0 where c0: "c0 \<in> set (children (h' p))" by (cases "children (h' p)") auto
    have sel: "selected (h' p) = (\<forall>c\<in>set (children (h' p)). selected (h' c))"
      using arg_cong [OF r [OF p], of selected] by (simp only: recompute_flags)
    have ind: "indeterminate (h' p) =
        (\<not> (\<forall>c\<in>set (children (h' p)). selected (h' c)) \<and>
         (\<exists>c\<in>set (children (h' p)). selected (h' c) \<or> indeterminate (h' c)))"
      using arg_cong [OF r [OF p], of indeterminate] by (simp only: recompute_flags)
    show ?thesis using ne c0 sel ind by blast
  qed
  with t show ?thesis by blast
qed

text \<open>
  C2. The recomputation does not always reach the ancestors of the toggled value.
  \<^verbatim>\<open>updateParentSelectionRecursive\<close> looks the parent up by its bare key in all levels, from
  the root level on, and is not called at all when the parent key is the empty string,
  whereas the linking pass finds the parent of a row in the map of the parent's own level
  and links a parent with an empty key like any other.

  With the rows (Other, Other, m1), (Other, Other, m2) the ancestor chain of m1 is the
  subcategory Other, then the category Other. Toggling m1 recomputes the category Other
  alone: the subcategory Other, the parent of m1, has then one of its two children
  selected and is left unselected and not indeterminate, where the tri-state rule makes
  it indeterminate; the category, recomputed from that stale child, is not indeterminate
  either. With the rows (empty, a), (empty, b), toggling a leaves its parent, whose key is
  the empty string, unselected and not indeterminate as well.
\<close>

theorem toggle_misses_parent:
  "map_option (\<lambda>levels. ancestorChain levels sharedKeyStore 2 (0, 2, ''m1''))
     (hierarchyLevels (sharedKeyCats ! 0)) = Some [(0, 1, ''Other''), (0, 0, ''Other'')] \<and>
   map_option (\<lambda>r. (children (fst r (0, 1, ''Other'')),
                    selected (fst r (0, 2, ''m1'')), selected (fst r (0, 2, ''m2'')),
                    selected (fst r (0, 1, ''Other'')), indeterminate (fst r (0, 1, ''Other'')),
                    selected (fst r (0, 0, ''Other'')), indeterminate (fst r (0, 0, ''Other''))))
     (toggleHierarchyValue sharedKeyCats sharedKeyStore (0, 2, ''m1'') (sharedKeyCats ! 0)) =
     Some ([(0, 2, ''m1''), (0, 2, ''m2'')], True, False, False, False, False, False) \<and>
   map_option (\<lambda>levels. ancestorChain levels emptyKeyStore 1 (0, 1, ''a''))
     (hierarchyLevels (emptyKeyCats ! 0)) = Some [(0, 0, [])] \<and>
   map_option (\<lambda>r. (children (fst r (0, 0, [])),
                    selected (fst r (0, 1, ''a'')), selected (fst r (0, 1, ''b'')),
                    selected (fst r (0, 0, [])), indeterminate (fst r (0, 0, []))))
     (toggleHierarchyValue emptyKeyCats emptyKeyStore (0, 1, ''a'') (emptyKeyCats ! 0)) =
     Some ([(0, 1, ''a''), (0, 1, ''b'')], True, False, False, False)"
  by code_simp

text \<open>
  C4, as stated, fails: the cascade overwrites a mixed subtree. With Apple selected and
  Banana not, toggling Fruit twice leaves Apple unselected.
\<close>

theorem toggle_twice_counterexample:
  "Option.bind (toggleHierarchyValue exampleCats appleStore (0, 0, ''Fruit'') (exampleCats ! 0))
     (\<lambda>r1. map_option (\<lambda>r2. selected (fst r2 (0, 1, ''Apple'')))
        (toggleHierarchyValue exampleCats (fst r1) (0, 0, ''Fruit'') (exampleCats ! 0))) = Some False
   \<and> selected (appleStore (0, 1, ''Apple''))"
  by code_simp

text \<open>
  C4, amended. On a hierarchy as the tree builder shapes it, in a state where the value is
  not indeterminate, every strict descendant of the value has the selected state of the
  value and is not indeterminate, and every ancestor of the value already carries the
  state that its children give it, toggling the value twice returns both times and gives
  back the store it started from: every flag of the value, of its subtree, of its
  ancestor chain and of all other values is as before.

  The ancestors are taken both ways: the values of the ancestor chain that the parent
  keys name level by level, and the values that the lookup of the recomputation reaches.
  The two agree unless a key of the chain is empty or occurs at a higher level too.
\<close>

theorem toggle_twice_restores_uniform:
  assumes cat: "hierarchyLevels category = Some levels" and lv: "levelled levels h"
    and i: "i < length levels" and n: "n \<in> set (level_values (levels ! i))"
    and clean: "\<not> indeterminate (h n)"
    and uniform: "\<forall>d. descendant h n d \<longrightarrow> selected (h d) = selected (h n) \<and> \<not> indeterminate (h d)"
    and chain: "\<forall>p\<in>set (ancestorChain levels h i n). h p = recomputeParent h p"
    and consistent: "\<forall>p. reached levels h (parentValue (h n)) p \<longrightarrow> h p = recomputeParent h p"
  shows "\<exists>h1 e1 h2 e2. toggleHierarchyValue cats h n category = Some (h1, e1) \<and>
           toggleHierarchyValue cats h1 n category = Some (h2, e2) \<and> h2 = h"
proof -
  from toggle_result [OF cat lv i n, of cats] obtain h1 e1 where
    t1: "toggleHierarchyValue cats h n category = Some (h1, e1)"
    and s1: "sameShape h1 h"
    and n1: "h1 n = (h n)\<lparr>selected := \<not> selected (h n)\<rparr>"
    and d1: "\<And>d. descendant h n d \<Longrightarrow>
         h1 d = (h d)\<lparr>selected := \<not> selected (h n), indeterminate := False\<rparr>"
    and o1: "\<And>x. x \<noteq> n \<Longrightarrow> \<not> descendant h n x \<Longrightarrow> \<not> reached levels h (parentValue (h n)) x \<Longrightarrow>
         h1 x = h x"
    by blast
  have lv1: "levelled levels h1" using s1 lv by (rule levelled_shape)
  have de: "descendant h1 a d = descendant h a d" for a d using s1 by (rule descendant_shape)
  have pv: "parentValue (h1 n) = parentValue (h n)" using s1 by (simp add: sameShape_def)
  have re: "reached levels h1 pk p = reached levels h pk p" for pk p using s1 by (rule reached_shape)
  from toggle_result [OF cat lv1 i n, of cats] obtain h2 e2 where
    t2: "toggleHierarchyValue cats h1 n category = Some (h2, e2)"
    and s2: "sameShape h2 h1"
    and n2: "h2 n = (h1 n)\<lparr>selected := \<not> selected (h1 n)\<rparr>"
    and d2: "\<And>d. descendant h n d \<Longrightarrow>
         h2 d = (h1 d)\<lparr>selected := \<not> selected (h1 n), indeterminate := False\<rparr>"
    and c2: "\<And>p. reached levels h (parentValue (h n)) p \<Longrightarrow> h2 p = recomputeParent h2 p"
    and o2: "\<And>x. x \<noteq> n \<Longrightarrow> \<not> descendant h n x \<Longrightarrow> \<not> reached levels h (parentValue (h n)) x \<Longrightarrow>
         h2 x = h1 x"
    unfolding de pv re by blast
  have s2h: "sameShape h2 h" using s2 s1 by (rule sameShape_trans)
  have bn: "h2 n = h n" using n2 n1 by simp
  have bd: "h2 d = h d" if d: "descendant h n d" for d
  proof -
    from uniform d have "selected (h d) = selected (h n)" "\<not> indeterminate (h d)" by simp_all
    then have "(h d)\<lparr>selected := selected (h n), indeterminate := False\<rparr> = h d" by simp
    then show ?thesis using d2 [OF d] d1 [OF d] n1 by simp
  qed
  have off: "h2 x = h x" if "\<not> reached levels h (parentValue (h n)) x" for x
  proof (cases "x = n")
    case True then show ?thesis using bn by simp
  next
    case False
    show ?thesis
    proof (cases "descendant h n x")
      case True then show ?thesis by (rule bd)
    next
      case nd: False
      show ?thesis using o2 [OF False nd that] o1 [OF False nd that] by simp
    qed
  qed
  have "h2 = h"
    using s2h sameShape_refl i n off c2 consistent
    by (intro chain_unique [OF lv]) blast+
  with t1 t2 show ?thesis by blast
qed

text \<open>
  The witness: in the three-level example, toggling Fruit twice. The first toggle selects
  Fruit, its children Apple and Banana and its parent Food; the second gives back the
  store of the rebuild, in which none of them is selected.
\<close>

theorem toggle_twice_restores_uniform_witness:
  "\<exists>h1 e1 h2 e2.
     toggleHierarchyValue deepCats deepStore (0, 1, ''Fruit'') (deepCats ! 0) = Some (h1, e1) \<and>
     toggleHierarchyValue deepCats h1 (0, 1, ''Fruit'') (deepCats ! 0) = Some (h2, e2) \<and>
     h2 = deepStore \<and>
     selected (h1 (0, 2, ''Apple'')) \<and> selected (h1 (0, 2, ''Banana'')) \<and>
     selected (h1 (0, 0, ''Food'')) \<and>
     \<not> selected (deepStore (0, 2, ''Apple'')) \<and> \<not> selected (deepStore (0, 2, ''Banana'')) \<and>
     \<not> selected (deepStore (0, 0, ''Food''))"
proof -
  have kids: "children (deepStore (0, 1, ''Fruit'')) = [(0, 2, ''Apple''), (0, 2, ''Banana'')]"
    "children (deepStore (0, 2, ''Apple'')) = []" "children (deepStore (0, 2, ''Banana'')) = []"
    by code_simp+
  have sub: "d = (0, 2, ''Apple'') \<or> d = (0, 2, ''Banana'')"
    if "descendant deepStore (0, 1, ''Fruit'') d" for d
    using that unfolding descendant_unfold kids list.set under_insert under_empty by auto
  have flags: "selected (deepStore (0, 2, ''Apple'')) = selected (deepStore (0, 1, ''Fruit''))"
    "\<not> indeterminate (deepStore (0, 2, ''Apple''))"
    "selected (deepStore (0, 2, ''Banana'')) = selected (deepStore (0, 1, ''Fruit''))"
    "\<not> indeterminate (deepStore (0, 2, ''Banana''))"
    by code_simp+
  have u: "\<forall>d. descendant deepStore (0, 1, ''Fruit'') d \<longrightarrow>
      selected (deepStore d) = selected (deepStore (0, 1, ''Fruit'')) \<and> \<not> indeterminate (deepStore d)"
    using sub flags by blast
  have food: "deepStore (0, 0, ''Food'') = recomputeParent deepStore (0, 0, ''Food'')"
    by (rule consistentI) code_simp+
  have ch: "ancestorChain deepLevels deepStore 1 (0, 1, ''Fruit'') = [(0, 0, ''Food'')]"
    by code_simp
  have a: "\<forall>p\<in>set (ancestorChain deepLevels deepStore 1 (0, 1, ''Fruit'')).
      deepStore p = recomputeParent deepStore p"
    unfolding ch using food by simp
  have fp: "findParent deepLevels deepStore (the (parentValue (deepStore (0, 1, ''Fruit'')))) =
    Some (0, 0, ''Food'')" by code_simp
  have root: "\<not> truthy (parentValue (deepStore (0, 0, ''Food'')))" by code_simp
  have only: "p = (0, 0, ''Food'')"
    if "reached deepLevels deepStore (parentValue (deepStore (0, 1, ''Fruit''))) p" for p
    using reached_step [OF that fp] root by (auto dest: reached_truthy)
  have c: "\<forall>p. reached deepLevels deepStore (parentValue (deepStore (0, 1, ''Fruit''))) p \<longrightarrow>
      deepStore p = recomputeParent deepStore p"
    using only food by blast
  have k: "\<not> indeterminate (deepStore (0, 1, ''Fruit''))" by code_simp
  from toggle_twice_restores_uniform [OF deep_levels deep_levelled deep_level1 deep_fruit k u a c,
      of deepCats]
  obtain h1 e1 h2 e2 where
    t1: "toggleHierarchyValue deepCats deepStore (0, 1, ''Fruit'') (deepCats ! 0) = Some (h1, e1)"
    and t2: "toggleHierarchyValue deepCats h1 (0, 1, ''Fruit'') (deepCats ! 0) = Some (h2, e2)"
    and b: "h2 = deepStore"
    by blast
  have first:
    "map_option (\<lambda>r. (selected (fst r (0, 2, ''Apple'')), selected (fst r (0, 2, ''Banana'')),
                      selected (fst r (0, 0, ''Food''))))
       (toggleHierarchyValue deepCats deepStore (0, 1, ''Fruit'') (deepCats ! 0)) =
     Some (True, True, True)"
    by code_simp
  have before: "\<not> selected (deepStore (0, 2, ''Apple''))" "\<not> selected (deepStore (0, 2, ''Banana''))"
    "\<not> selected (deepStore (0, 0, ''Food''))"
    by code_simp+
  from first have "selected (h1 (0, 2, ''Apple''))" "selected (h1 (0, 2, ''Banana''))"
    "selected (h1 (0, 0, ''Food''))"
    unfolding t1 by simp_all
  with t1 t2 b before show ?thesis by blast
qed

section \<open>The grouper\<close>

lemma sameBase_lineage: "sameBase key c \<longleftrightarrow> lineageKey c = Some key"
  by (auto simp: sameBase_def lineageKey_def)

lemma map_nth_filter:
  "map (\<lambda>j. xs ! j) (filter (\<lambda>j. P (xs ! j)) [0..<length xs]) = filter P xs"
proof (induction xs rule: rev_induct)
  case Nil
  then show ?case by simp
next
  case (snoc x xs)
  have a: "filter (\<lambda>j. P ((xs @ [x]) ! j)) [0..<length xs] = filter (\<lambda>j. P (xs ! j)) [0..<length xs]"
    by (rule filter_cong) (simp_all add: nth_append)
  have b: "map (\<lambda>j. (xs @ [x]) ! j) (filter (\<lambda>j. P (xs ! j)) [0..<length xs]) =
           map (\<lambda>j. xs ! j) (filter (\<lambda>j. P (xs ! j)) [0..<length xs])"
    by (rule map_cong) (simp_all add: nth_append)
  show ?case using snoc by (simp add: a b)
qed

lemma consumed_mem:
  assumes "i < length categories"
  shows "i \<in> consumed categories i \<longleftrightarrow> \<not> firstOfLineage categories i"
  using assms by (simp add: consumed_def firstOfLineage_def list_all_iff Bex_def)

lemma groupStep_closed:
  assumes i: "i < length categories"
  shows "groupStep categories i
           (map (groupOf categories) (filter (firstOfLineage categories) [0..<i]), consumed categories i) =
         (map (groupOf categories) (filter (firstOfLineage categories) [0..<Suc i]),
          consumed categories (Suc i))"
proof (cases "firstOfLineage categories i")
  case False
  then have m: "i \<in> consumed categories i" using consumed_mem [OF i] by simp
  from False have ln: "lineageKey (categories ! i) \<noteq> None"
    and ex: "\<exists>j<i. lineageKey (categories ! j) = lineageKey (categories ! i)"
    unfolding firstOfLineage_def list_all_iff by auto
  have "consumed categories (Suc i) = consumed categories i"
    unfolding consumed_def using ln ex i by (auto simp: less_Suc_eq)
  then show ?thesis using False m by (simp add: groupStep_def Let_def)
next
  case True
  then have m: "i \<notin> consumed categories i" using consumed_mem [OF i] by simp
  show ?thesis
  proof (cases "lineageKey (categories ! i)")
    case None
    then have q: "\<not> truthy (queryName (categories ! i))" by (simp add: lineageKey_def split: if_splits)
    have c: "consumed categories (Suc i) = insert i (consumed categories i)"
      unfolding consumed_def using None i by (auto simp: less_Suc_eq)
    show ?thesis using True m q None
      by (simp add: groupStep_def Let_def c groupOf_def)
  next
    case (Some key)
    then have q: "truthy (queryName (categories ! i))"
      and k: "splitHead (the (queryName (categories ! i))) = key"
      by (simp_all add: lineageKey_def split: if_splits)
    have rel: "map (\<lambda>j. categories ! j)
        (filter (\<lambda>j. sameBase key (categories ! j)) [0..<length categories]) =
        filter (\<lambda>c. lineageKey c = Some key) categories"
      unfolding sameBase_lineage by (rule map_nth_filter)
    have c: "consumed categories (Suc i) =
        consumed categories i \<union> set (filter (\<lambda>j. sameBase key (categories ! j)) [0..<length categories])"
      unfolding consumed_def sameBase_lineage using Some i by (auto simp: less_Suc_eq)
    have len: "length (filter (\<lambda>j. sameBase key (categories ! j)) [0..<length categories]) =
        length (filter (\<lambda>c. lineageKey c = Some key) categories)"
      using arg_cong [OF rel, of length] by simp
    have g: "groupOf categories i =
        (if length (filter (\<lambda>c. lineageKey c = Some key) categories) > 1
         then HierarchyItem (hierarchyNameOf (categories ! i) key) i
                (filter (\<lambda>c. lineageKey c = Some key) categories)
         else SingleItem (displayName (categories ! i)) i (categories ! i))"
      by (simp add: groupOf_def Let_def Some)
    have st: "groupStep categories i
           (map (groupOf categories) (filter (firstOfLineage categories) [0..<i]), consumed categories i) =
         (map (groupOf categories) (filter (firstOfLineage categories) [0..<i]) @ [groupOf categories i],
          consumed categories (Suc i))"
      unfolding g c using m q by (simp add: groupStep_def Let_def k rel len)
    show ?thesis unfolding st using True by simp
  qed
qed

lemma group_fold:
  "i \<le> length categories \<Longrightarrow>
   fold (groupStep categories) [0..<i] ([], {}) =
     (map (groupOf categories) (filter (firstOfLineage categories) [0..<i]), consumed categories i)"
proof (induction i)
  case 0
  then show ?case by (simp add: consumed_def)
next
  case (Suc i)
  then have "i < length categories" by simp
  from groupStep_closed [OF this] Suc show ?case by (simp del: upt_Suc add: upt_Suc_append)
qed

text \<open>
  C9, as stated, fails on the name of a hierarchy: the code names it by the part of the
  first field's display name before the first dot, not by the display name.
\<close>

theorem group_name_counterexample:
  "groupCategories [colDotted, colDotted2] = [HierarchyItem ''Product'' 0 [colDotted, colDotted2]]
   \<and> displayName colDotted = Some ''Product.Category''"
  by code_simp

text \<open>
  C9, amended. For every ordered list of fields the grouper emits, in the order in which
  the first field of each group appears, one group for every field that has no lineage
  key or is the first with its lineage key. A field without lineage key, or alone with
  its key, becomes a standalone entry; several fields with one key become a hierarchy whose
  levels are these fields in their original order, and whose name is the part of the first
  field's display name before its first dot, or the lineage key when the display name is
  absent or that part is empty.
\<close>

theorem grouper_closed_form: "groupCategories categories = groupSpec categories"
  by (simp add: groupCategories_def groupSpec_def group_fold)

text \<open>The witness: the three columns of the example give a hierarchy and a standalone entry.\<close>

theorem grouper_closed_form_witness:
  "groupCategories [colCategory, colItem, colRegion] =
     [HierarchyItem ''Category'' 0 [colCategory, colItem], SingleItem (Some ''Region'') 2 colRegion]"
  unfolding grouper_closed_form by code_simp

section \<open>First occurrences\<close>

lemma fo_Nil: "firstOccurrences [] = []"
  by (simp add: firstOccurrences_def)

lemma fo_snoc:
  "firstOccurrences (xs @ [x]) = (if x \<in> set xs then firstOccurrences xs else firstOccurrences xs @ [x])"
  by (simp add: firstOccurrences_def)

lemma set_fo: "set (firstOccurrences xs) = set xs"
  by (simp add: firstOccurrences_def)

lemma distinct_fo: "distinct (firstOccurrences xs)"
  by (simp add: firstOccurrences_def)

lemma length_fo: "length (firstOccurrences xs) = card (set xs)"
  using distinct_card [OF distinct_fo [of xs]] by (simp add: set_fo)

lemma firstIndex_old: "x \<in> set xs \<Longrightarrow> firstIndex (xs @ ys) x = firstIndex xs x"
  unfolding firstIndex_def by (induction xs) auto

lemma firstIndex_new: "x \<notin> set xs \<Longrightarrow> firstIndex (xs @ [x]) x = length xs"
  unfolding firstIndex_def by (induction xs) auto

lemma firstIndex_less: "x \<in> set xs \<Longrightarrow> firstIndex xs x < length xs"
  unfolding firstIndex_def by (induction xs) auto

lemma firstIndex_nth: "x \<in> set xs \<Longrightarrow> xs ! firstIndex xs x = x"
  unfolding firstIndex_def by (induction xs) auto

lemma firstIndex_least: "j < firstIndex xs x \<Longrightarrow> xs ! j \<noteq> x"
  unfolding firstIndex_def
  by (metis (mono_tags, lifting) nth_mem set_takeWhileD takeWhile_nth)

lemma firstIndex_inj: "x \<in> set xs \<Longrightarrow> y \<in> set xs \<Longrightarrow> firstIndex xs x = firstIndex xs y \<Longrightarrow> x = y"
  using firstIndex_nth by metis

lemma sorted_fo: "sorted_wrt (<) (map (firstIndex xs) (firstOccurrences xs))"
proof (induction xs rule: rev_induct)
  case Nil
  then show ?case by (simp add: fo_Nil)
next
  case (snoc x xs)
  have same: "map (firstIndex (xs @ [x])) (firstOccurrences xs) = map (firstIndex xs) (firstOccurrences xs)"
    by (rule map_cong) (simp_all add: set_fo firstIndex_old)
  show ?case
  proof (cases "x \<in> set xs")
    case True
    then show ?thesis using snoc by (simp add: fo_snoc same)
  next
    case False
    have "\<forall>i\<in>set (map (firstIndex xs) (firstOccurrences xs)). i < length xs"
      by (auto simp: set_fo firstIndex_less)
    then show ?thesis using snoc False
      by (simp add: fo_snoc same firstIndex_new sorted_wrt_append)
  qed
qed

section \<open>The builders in closed form\<close>

lemma map_of_keys: "map_of (map (\<lambda>k. (k, f k)) xs) k = (if k \<in> set xs then Some (f k) else None)"
  by (induction xs) auto

lemma freshValue_old: "k \<in> set ks \<Longrightarrow> freshValue category (ks @ ys) k = freshValue category ks k"
  by (simp add: freshValue_def firstIndex_old)

lemma freshValue_new:
  "x \<notin> set ks \<Longrightarrow> freshValue category (ks @ [x]) x =
     \<lparr>value' = x, identity = SelectionId category (length ks), selected = False,
      indeterminate = False, children = [], parentValue = None\<rparr>"
  by (simp add: freshValue_def firstIndex_new)

lemma minted_old:
  "map (\<lambda>k. SelectionId category (firstIndex (ks @ ys) k)) (firstOccurrences ks) =
   map (\<lambda>k. SelectionId category (firstIndex ks k)) (firstOccurrences ks)"
  by (rule map_cong) (simp_all add: set_fo firstIndex_old)

lemma withLevel_old:
  "x \<in> set ks \<Longrightarrow> withLevel oi l category (ks @ [x]) h = withLevel oi l category ks h"
  by (rule ext) (auto simp: withLevel_def freshValue_old)

lemma withLevel_new:
  "x \<notin> set ks \<Longrightarrow>
   withLevel oi l category (ks @ [x]) h =
     (withLevel oi l category ks h)((oi, l, x) :=
        \<lparr>value' = x, identity = SelectionId category (length ks), selected = False,
         indeterminate = False, children = [], parentValue = None\<rparr>)"
  by (rule ext) (auto simp: withLevel_def freshValue_old freshValue_new)

lemma firstPass_cells:
  "fold (firstPassStep oi l category) (zip vs [0..<length vs]) ([], h, minted) =
     (map (\<lambda>k. (k, (oi, l, k))) (firstOccurrences (map stringValue vs)),
      withLevel oi l category (map stringValue vs) h,
      minted @ map (\<lambda>k. SelectionId category (firstIndex (map stringValue vs) k))
                 (firstOccurrences (map stringValue vs)))"
proof (induction vs rule: rev_induct)
  case Nil
  then show ?case by (simp add: fo_Nil withLevel_def)
next
  case (snoc v vs)
  let ?ks = "map stringValue vs"
  have z: "zip (vs @ [v]) [0..<length (vs @ [v])] = zip vs [0..<length vs] @ [(v, length vs)]"
    by simp
  show ?case
  proof (cases "stringValue v \<in> set ?ks")
    case True
    then show ?thesis
      unfolding z fold_append comp_def snoc
      by (simp add: firstPassStep_def Let_def map_of_keys set_fo fo_snoc withLevel_old minted_old)
  next
    case False
    then show ?thesis
      unfolding z fold_append comp_def snoc
      by (simp add: firstPassStep_def Let_def map_of_keys set_fo fo_snoc withLevel_new minted_old
          firstIndex_new fun_upd_def)
  qed
qed

lemma firstPassLevel_closed:
  "firstPassLevel oi l category (h, minted) =
     (map (\<lambda>k. (k, (oi, l, k))) (firstOccurrences (columnKeys category)),
      withLevel oi l category (columnKeys category) h,
      minted @ map (\<lambda>k. SelectionId category (firstIndex (columnKeys category) k))
                 (firstOccurrences (columnKeys category)))"
  unfolding firstPassLevel_def columnKeys_def by (rule firstPass_cells)

lemma firstIndices_cells:
  "fold firstIndexStep (zip vs [0..<length vs]) [] =
     map (\<lambda>k. (k, firstIndex (map stringValue vs) k)) (firstOccurrences (map stringValue vs))"
proof (induction vs rule: rev_induct)
  case Nil
  then show ?case by (simp add: fo_Nil)
next
  case (snoc v vs)
  have z: "zip (vs @ [v]) [0..<length (vs @ [v])] = zip vs [0..<length vs] @ [(v, length vs)]"
    by simp
  have same: "map (\<lambda>k. (k, firstIndex (map stringValue vs @ [stringValue v]) k))
                (firstOccurrences (map stringValue vs)) =
              map (\<lambda>k. (k, firstIndex (map stringValue vs) k)) (firstOccurrences (map stringValue vs))"
    by (rule map_cong) (simp_all add: set_fo firstIndex_old)
  show ?case
    unfolding z fold_append comp_def snoc
    by (simp add: firstIndexStep_def Let_def map_of_keys set_fo fo_snoc same firstIndex_new)
qed

lemma createValues_keys:
  "fold (createValueStep oi category) (map (\<lambda>k. (k, firstIndex ks k)) es) ([], h, minted) =
     (map (\<lambda>k. (oi, 0, k)) es,
      (\<lambda>r. if fst r = oi \<and> fst (snd r) = 0 \<and> snd (snd r) \<in> set es
           then freshValue category ks (snd (snd r)) else h r),
      minted @ map (\<lambda>k. SelectionId category (firstIndex ks k)) es)"
proof (induction es rule: rev_induct)
  case Nil
  then show ?case by simp
next
  case (snoc e es)
  have st: "(\<lambda>r. if fst r = oi \<and> fst (snd r) = 0 \<and> snd (snd r) \<in> set (es @ [e])
           then freshValue category ks (snd (snd r)) else h r) =
        (\<lambda>r. if fst r = oi \<and> fst (snd r) = 0 \<and> snd (snd r) \<in> set es
           then freshValue category ks (snd (snd r)) else h r)((oi, 0, e) :=
          \<lparr>value' = e, identity = SelectionId category (firstIndex ks e), selected = False,
           indeterminate = False, children = [], parentValue = None\<rparr>)"
    by (rule ext) (auto simp: freshValue_def)
  show ?case
    unfolding map_append fold_append comp_def snoc st
    by (simp add: createValueStep_def Let_def)
qed

lemma buildSingle_closed:
  "buildSingle oi category (h, minted) =
     (map (\<lambda>k. (oi, 0, k)) (firstOccurrences (columnKeys category)),
      withLevel oi 0 category (columnKeys category) h,
      minted @ map (\<lambda>k. SelectionId category (firstIndex (columnKeys category) k))
                 (firstOccurrences (columnKeys category)))"
  unfolding buildSingle_def firstIndices_def firstIndices_cells columnKeys_def [symmetric]
    createValues_keys withLevel_def set_fo ..

text \<open>The builders' normaliser computes the canonical key of the specification.\<close>

lemma stringValue_canonical: "stringValue v = canonicalKey v"
  by (cases v) (simp_all add: stringValue_def)

lemma columnKeys_canonical: "columnKeys category = canonicalKeys category"
  by (simp add: columnKeys_def canonicalKeys_def stringValue_canonical)

lemma deduplicated_fresh:
  assumes "\<And>k. k \<in> set (columnKeys category) \<Longrightarrow>
             value' (h (f k)) = k \<and>
             identity (h (f k)) = SelectionId category (firstIndex (columnKeys category) k)"
  shows "deduplicated category (map f (firstOccurrences (columnKeys category))) h"
proof -
  let ?ks = "columnKeys category"
  let ?fo = "firstOccurrences ?ks"
  have v: "map (\<lambda>r. value' (h r)) (map f ?fo) = ?fo"
    unfolding map_map comp_def by (rule map_idI) (simp add: set_fo assms)
  have i: "map (\<lambda>r. identity (h r)) (map f ?fo) = map (\<lambda>k. SelectionId category (firstIndex ?ks k)) ?fo"
    unfolding map_map comp_def by (rule map_cong) (simp_all add: set_fo assms)
  have d: "distinct (map (\<lambda>k. SelectionId category (firstIndex ?ks k)) ?fo)"
    unfolding distinct_map
    by (auto simp: distinct_fo set_fo inj_on_def dest: firstIndex_inj)
  show ?thesis
    unfolding deduplicated_def Let_def columnKeys_canonical [symmetric] v i
    using d by (simp add: length_fo distinct_fo set_fo sorted_fo)
qed

lemma withLevel_at:
  "k \<in> set ks \<Longrightarrow> withLevel oi l category ks h (oi, l, k) = freshValue category ks k"
  by (simp add: withLevel_def)

lemma firstPass_closed:
  "firstPass oi l0 cs (h, minted) =
     (map (\<lambda>i. map (\<lambda>k. (k, (oi, l0 + i, k))) (firstOccurrences (columnKeys (cs ! i)))) [0..<length cs],
      (\<lambda>r. if fst r = oi \<and> l0 \<le> fst (snd r) \<and> fst (snd r) < l0 + length cs \<and>
              snd (snd r) \<in> set (columnKeys (cs ! (fst (snd r) - l0)))
           then freshValue (cs ! (fst (snd r) - l0)) (columnKeys (cs ! (fst (snd r) - l0))) (snd (snd r))
           else h r),
      minted @ concat (map (\<lambda>c. map (\<lambda>k. SelectionId c (firstIndex (columnKeys c) k))
                                   (firstOccurrences (columnKeys c))) cs))"
proof (induction cs arbitrary: l0 h minted)
  case Nil
  then show ?case by (auto simp: fun_eq_iff)
next
  case (Cons c rest)
  have st: "(\<lambda>r. if fst r = oi \<and> Suc l0 \<le> fst (snd r) \<and> fst (snd r) < Suc l0 + length rest \<and>
              snd (snd r) \<in> set (columnKeys (rest ! (fst (snd r) - Suc l0)))
           then freshValue (rest ! (fst (snd r) - Suc l0)) (columnKeys (rest ! (fst (snd r) - Suc l0))) (snd (snd r))
           else withLevel oi l0 c (columnKeys c) h r) =
        (\<lambda>r. if fst r = oi \<and> l0 \<le> fst (snd r) \<and> fst (snd r) < l0 + length (c # rest) \<and>
              snd (snd r) \<in> set (columnKeys ((c # rest) ! (fst (snd r) - l0)))
           then freshValue ((c # rest) ! (fst (snd r) - l0)) (columnKeys ((c # rest) ! (fst (snd r) - l0))) (snd (snd r))
           else h r)"
  proof (rule ext)
    fix r :: ref
    show "(if fst r = oi \<and> Suc l0 \<le> fst (snd r) \<and> fst (snd r) < Suc l0 + length rest \<and>
              snd (snd r) \<in> set (columnKeys (rest ! (fst (snd r) - Suc l0)))
           then freshValue (rest ! (fst (snd r) - Suc l0)) (columnKeys (rest ! (fst (snd r) - Suc l0))) (snd (snd r))
           else withLevel oi l0 c (columnKeys c) h r) =
        (if fst r = oi \<and> l0 \<le> fst (snd r) \<and> fst (snd r) < l0 + length (c # rest) \<and>
              snd (snd r) \<in> set (columnKeys ((c # rest) ! (fst (snd r) - l0)))
           then freshValue ((c # rest) ! (fst (snd r) - l0)) (columnKeys ((c # rest) ! (fst (snd r) - l0))) (snd (snd r))
           else h r)"
    proof (cases "fst (snd r) = l0")
      case True
      then show ?thesis by (simp add: withLevel_def)
    next
      case False
      show ?thesis
      proof (cases "l0 < fst (snd r)")
        case True
        then obtain d where d: "fst (snd r) = Suc (l0 + d)" using less_imp_Suc_add by blast
        show ?thesis using False by (simp add: d withLevel_def)
      next
        case nl: False
        with False have "fst (snd r) < l0" by simp
        then show ?thesis by (simp add: withLevel_def)
      qed
    qed
  qed
  show ?case
    unfolding firstPass.simps Let_def firstPassLevel_closed fst_conv snd_conv Cons.IH st
    by (simp add: map_upt_Suc del: upt_Suc)
qed

lemma fold_product:
  "fold (\<lambda>r. fold (f r) ys) xs s = fold (\<lambda>p. f (fst p) (snd p)) (List.product xs ys) s"
proof (induction xs arbitrary: s)
  case Nil
  then show ?case by simp
next
  case (Cons x xs)
  then show ?case by (simp add: fold_map comp_def)
qed

lemma fold_filter_map:
  "(\<And>x. x \<in> set xs \<Longrightarrow> f x = (if P x then g (m x) else id)) \<Longrightarrow>
   fold f xs s = fold g (map m (filter P xs)) s"
  by (induction xs arbitrary: s) auto

lemma secondPass_product:
  "secondPass categories vbl h =
     fold (\<lambda>s. linkStep categories vbl (fst s) (snd s))
       (List.product [0..<rowCount categories] [0..<length categories - 1]) h"
proof (cases categories)
  case Nil
  then show ?thesis by (simp add: secondPass_def rowCount_def)
next
  case (Cons c cs)
  have "secondPass categories vbl h =
      fold (\<lambda>r. fold (linkStep categories vbl r) [0..<length categories - 1]) [0..<rowCount categories] h"
    unfolding secondPass_def rowCount_def Cons linkRow_def by simp
  then show ?thesis unfolding fold_product .
qed

lemma linkedStore_Nil: "linkedStore oi [] h = h"
  by (rule ext) (simp add: linkedStore_def)

lemma linkedStore_fields:
  "value' (linkedStore oi es h r) = value' (h r)"
  "identity (linkedStore oi es h r) = identity (h r)"
  "selected (linkedStore oi es h r) = selected (h r)"
  "indeterminate (linkedStore oi es h r) = indeterminate (h r)"
  by (simp_all add: linkedStore_def)

lemma linkedStore_children:
  "children (linkedStore oi es h r) =
     children (h r) @ map (childRef oi) (filter (\<lambda>e. parentRef oi e = r) es)"
  by (simp add: linkedStore_def)

lemma linkedStore_parentValue:
  "parentValue (linkedStore oi es h r) =
     (if filter (\<lambda>e. childRef oi e = r) es = [] then parentValue (h r)
      else Some (fst (snd (last (filter (\<lambda>e. childRef oi e = r) es)))))"
  by (simp add: linkedStore_def)

lemma parent_child_differ: "parentRef oi e \<noteq> childRef oi e'" if "fst e = fst e'"
  using that by (simp add: parentRef_def childRef_def)

lemma edge_eqI:
  "parentRef oi e' = parentRef oi e \<Longrightarrow> snd (snd e') = snd (snd e) \<Longrightarrow> e' = e"
  by (simp add: parentRef_def prod_eq_iff)

lemma link_new:
  assumes "e \<notin> set es"
  shows "(let g = linkedStore oi es h;
              g1 = g(parentRef oi e := (g (parentRef oi e))\<lparr>children := children (g (parentRef oi e)) @ [childRef oi e]\<rparr>)
          in g1(childRef oi e := (g1 (childRef oi e))\<lparr>parentValue := Some (fst (snd e))\<rparr>)) =
         linkedStore oi (es @ [e]) h"
proof (rule ext)
  fix r
  have d: "parentRef oi e \<noteq> childRef oi e" by (rule parent_child_differ) simp
  consider "r = childRef oi e" | "r = parentRef oi e" | "r \<noteq> childRef oi e" "r \<noteq> parentRef oi e"
    by blast
  then show "(let g = linkedStore oi es h;
              g1 = g(parentRef oi e := (g (parentRef oi e))\<lparr>children := children (g (parentRef oi e)) @ [childRef oi e]\<rparr>)
          in g1(childRef oi e := (g1 (childRef oi e))\<lparr>parentValue := Some (fst (snd e))\<rparr>)) r =
         linkedStore oi (es @ [e]) h r"
  proof cases
    case 1
    then show ?thesis using d by (simp add: Let_def linkedStore_def)
  next
    case 2
    then show ?thesis using d by (simp add: Let_def linkedStore_def)
  next
    case 3
    then have "parentRef oi e \<noteq> r" "childRef oi e \<noteq> r" by auto
    then show ?thesis using 3 by (simp add: Let_def linkedStore_def)
  qed
qed

lemma link_fold:
  assumes A: "\<And>e. e \<in> set es \<Longrightarrow>
      value' (h (parentRef oi e)) = fst (snd e) \<and> value' (h (childRef oi e)) = snd (snd e) \<and>
      children (h (parentRef oi e)) = []"
  shows "fold (\<lambda>e g. linkNodes g (parentRef oi e) (childRef oi e)) es h =
         linkedStore oi (firstOccurrences es) h"
  using A
proof (induction es rule: rev_induct)
  case Nil
  then show ?case by (simp add: fo_Nil linkedStore_Nil)
next
  case (snoc e es)
  let ?G = "linkedStore oi (firstOccurrences es) h"
  have IH: "fold (\<lambda>e g. linkNodes g (parentRef oi e) (childRef oi e)) es h = ?G"
    using snoc by simp
  have Ae: "value' (h (parentRef oi e)) = fst (snd e)" "value' (h (childRef oi e)) = snd (snd e)"
    "children (h (parentRef oi e)) = []"
    using snoc.prems [of e] by simp_all
  have guard: "list_ex (\<lambda>c. value' (?G c) = value' (?G (childRef oi e))) (children (?G (parentRef oi e)))
      \<longleftrightarrow> e \<in> set es"
  proof
    assume "list_ex (\<lambda>c. value' (?G c) = value' (?G (childRef oi e))) (children (?G (parentRef oi e)))"
    then obtain e' where e': "e' \<in> set es" "parentRef oi e' = parentRef oi e"
      "value' (h (childRef oi e')) = snd (snd e)"
      by (auto simp: list_ex_iff linkedStore_fields linkedStore_children Ae set_fo)
    from snoc.prems [of e'] e'(1,3) have "snd (snd e') = snd (snd e)" by simp
    with e'(2) have "e' = e" by (rule edge_eqI)
    with e'(1) show "e \<in> set es" by simp
  next
    assume m: "e \<in> set es"
    then have "e \<in> set (filter (\<lambda>e'. parentRef oi e' = parentRef oi e) (firstOccurrences es))"
      by (simp add: set_fo)
    then have "childRef oi e \<in> childRef oi ` set (filter (\<lambda>e'. parentRef oi e' = parentRef oi e) (firstOccurrences es))"
      by (rule imageI)
    then have "childRef oi e \<in> set (children (?G (parentRef oi e)))"
      by (simp add: linkedStore_children Ae)
    then show "list_ex (\<lambda>c. value' (?G c) = value' (?G (childRef oi e))) (children (?G (parentRef oi e)))"
      unfolding list_ex_iff by blast
  qed
  show ?case
  proof (cases "e \<in> set es")
    case True
    then show ?thesis
      unfolding fold_append comp_def IH by (simp add: linkNodes_def guard fo_snoc)
  next
    case False
    have "linkNodes ?G (parentRef oi e) (childRef oi e) =
        (let g = ?G;
             g1 = g(parentRef oi e := (g (parentRef oi e))\<lparr>children := children (g (parentRef oi e)) @ [childRef oi e]\<rparr>)
         in g1(childRef oi e := (g1 (childRef oi e))\<lparr>parentValue := Some (fst (snd e))\<rparr>))"
      unfolding linkNodes_def Let_def using False guard
      by (simp add: linkedStore_fields Ae)
    also have "\<dots> = linkedStore oi (firstOccurrences es @ [e]) h"
      by (rule link_new) (simp add: set_fo False)
    finally show ?thesis
      unfolding fold_append comp_def IH using False by (simp add: fo_snoc)
  qed
qed

lemma linkStep_closed:
  assumes "Suc l < length cs"
  shows "linkStep cs
           (map (\<lambda>i. map (\<lambda>k. (k, (oi, 0 + i, k))) (firstOccurrences (columnKeys (cs ! i)))) [0..<length cs])
           r l =
         (if bothFound cs (r, l)
          then (\<lambda>g. linkNodes g (parentRef oi (edgeOf cs (r, l))) (childRef oi (edgeOf cs (r, l))))
          else id)"
proof -
  have l: "l < length cs" using assms by simp
  show ?thesis
    by (rule ext)
       (simp add: linkStep_def Let_def l assms map_of_keys set_fo bothFound_def edgeOf_def keyAt_def
          parentRef_def childRef_def)
qed

lemma linkedEdges_facts:
  assumes "e \<in> set (linkedEdges cs)"
  shows "Suc (fst e) < length cs" "fst (snd e) \<in> set (columnKeys (cs ! fst e))"
    "snd (snd e) \<in> set (columnKeys (cs ! Suc (fst e)))"
  using assms unfolding linkedEdges_def bothFound_def edgeOf_def by auto

lemma withLevels_at:
  "l < length cs \<Longrightarrow> k \<in> set (columnKeys (cs ! l)) \<Longrightarrow>
   withLevels oi cs h (oi, l, k) = freshValue (cs ! l) (columnKeys (cs ! l)) k"
  by (simp add: withLevels_def)

lemma withLevels_other: "fst r \<noteq> oi \<Longrightarrow> withLevels oi cs h r = h r"
  by (simp add: withLevels_def)

lemma secondPass_closed:
  "secondPass cs
     (map (\<lambda>i. map (\<lambda>k. (k, (oi, 0 + i, k))) (firstOccurrences (columnKeys (cs ! i)))) [0..<length cs])
     (withLevels oi cs h) = builtStore oi cs h"
proof -
  let ?vbl = "map (\<lambda>i. map (\<lambda>k. (k, (oi, 0 + i, k))) (firstOccurrences (columnKeys (cs ! i)))) [0..<length cs]"
  let ?g = "\<lambda>e g. linkNodes g (parentRef oi e) (childRef oi e)"
  have step: "(\<lambda>s. linkStep cs ?vbl (fst s) (snd s)) s =
      (if bothFound cs s then ?g (edgeOf cs s) else id)"
    if "s \<in> set (List.product [0..<rowCount cs] [0..<length cs - 1])" for s
  proof -
    from that have "Suc (snd s) < length cs" by auto
    from linkStep_closed [OF this, of oi "fst s"] show ?thesis by simp
  qed
  have "secondPass cs ?vbl (withLevels oi cs h) = fold ?g (linkedEdges cs) (withLevels oi cs h)"
    unfolding secondPass_product linkedEdges_def
    by (rule fold_filter_map) (rule step)
  also have "\<dots> = linkedStore oi (firstOccurrences (linkedEdges cs)) (withLevels oi cs h)"
  proof (rule link_fold)
    fix e assume e: "e \<in> set (linkedEdges cs)"
    from linkedEdges_facts [OF e] have f: "Suc (fst e) < length cs" "fst e < length cs"
      "fst (snd e) \<in> set (columnKeys (cs ! fst e))"
      "snd (snd e) \<in> set (columnKeys (cs ! Suc (fst e)))" by simp_all
    show "value' (withLevels oi cs h (parentRef oi e)) = fst (snd e) \<and>
          value' (withLevels oi cs h (childRef oi e)) = snd (snd e) \<and>
          children (withLevels oi cs h (parentRef oi e)) = []"
      unfolding parentRef_def childRef_def
      by (simp add: withLevels_at f freshValue_def)
  qed
  finally show ?thesis by (simp add: builtStore_def newLinks_def)
qed

lemma thirdPass_closed:
  "thirdPass cs
     (map (\<lambda>i. map (\<lambda>k. (k, (oi, 0 + i, k))) (firstOccurrences (columnKeys (cs ! i)))) [0..<length cs]) =
   builtLevels oi cs"
  unfolding thirdPass_def builtLevels_def
  by (rule map_cong) (simp_all add: comp_def)

lemma withLevels_zero:
  "(\<lambda>r. if fst r = oi \<and> 0 \<le> fst (snd r) \<and> fst (snd r) < 0 + length cs \<and>
              snd (snd r) \<in> set (columnKeys (cs ! (fst (snd r) - 0)))
           then freshValue (cs ! (fst (snd r) - 0)) (columnKeys (cs ! (fst (snd r) - 0))) (snd (snd r))
           else h r) = withLevels oi cs h"
  by (rule ext) (simp add: withLevels_def)

lemma buildHierarchy_closed:
  "buildHierarchy oi cs (h, minted) =
     (builtLevels oi cs, builtStore oi cs h,
      minted @ concat (map (\<lambda>c. map (\<lambda>k. SelectionId c (firstIndex (columnKeys c) k))
                                   (firstOccurrences (columnKeys c))) cs))"
  unfolding buildHierarchy_def Let_def firstPass_closed fst_conv snd_conv withLevels_zero
    secondPass_closed thirdPass_closed ..

lemma builtLevels_length: "length (builtLevels oi cs) = length cs"
  by (simp add: builtLevels_def)

lemma builtLevels_values:
  "l < length cs \<Longrightarrow>
   level_values (builtLevels oi cs ! l) = map (\<lambda>k. (oi, l, k)) (firstOccurrences (columnKeys (cs ! l)))"
  by (simp add: builtLevels_def)

lemma builtStore_fields:
  assumes "l < length cs" "k \<in> set (columnKeys (cs ! l))"
  shows "value' (builtStore oi cs h (oi, l, k)) = k"
    "identity (builtStore oi cs h (oi, l, k)) = SelectionId (cs ! l) (firstIndex (columnKeys (cs ! l)) k)"
    "children (builtStore oi cs h (oi, l, k)) =
       map (childRef oi) (filter (\<lambda>e. parentRef oi e = (oi, l, k)) (newLinks cs))"
    "parentValue (builtStore oi cs h (oi, l, k)) =
       (if filter (\<lambda>e. childRef oi e = (oi, l, k)) (newLinks cs) = [] then None
        else Some (fst (snd (last (filter (\<lambda>e. childRef oi e = (oi, l, k)) (newLinks cs))))))"
  using assms
  by (simp_all add: builtStore_def linkedStore_fields linkedStore_children linkedStore_parentValue
      withLevels_at freshValue_def)

lemma builtStore_other:
  assumes "fst r \<noteq> oi"
  shows "builtStore oi cs h r = h r"
proof -
  have a: "filter (\<lambda>e. parentRef oi e = r) es = []" for es
    using assms by (auto simp: filter_empty_conv parentRef_def)
  have b: "filter (\<lambda>e. childRef oi e = r) es = []" for es
    using assms by (auto simp: filter_empty_conv childRef_def)
  show ?thesis
    by (simp add: builtStore_def linkedStore_def a b withLevels_other [OF assms])
qed

lemma built_level_deduplicated:
  assumes l: "l < length cs"
  shows "deduplicated (cs ! l) (level_values (builtLevels oi cs ! l)) (builtStore oi cs h)"
  unfolding builtLevels_values [OF l]
  by (rule deduplicated_fresh) (simp add: builtStore_fields [OF l])

lemma built_minted:
  "concat (map (\<lambda>level. map (\<lambda>r. identity (builtStore oi cs h r)) (level_values level))
     (builtLevels oi cs)) =
   concat (map (\<lambda>c. map (\<lambda>k. SelectionId c (firstIndex (columnKeys c) k))
                        (firstOccurrences (columnKeys c))) cs)"
proof -
  have "map (\<lambda>level. map (\<lambda>r. identity (builtStore oi cs h r)) (level_values level))
          (builtLevels oi cs) =
        map (\<lambda>l. map (\<lambda>k. SelectionId (cs ! l) (firstIndex (columnKeys (cs ! l)) k))
                        (firstOccurrences (columnKeys (cs ! l)))) [0..<length cs]"
    unfolding builtLevels_def map_map comp_def
    by (rule map_cong) (simp_all add: comp_def set_fo builtStore_fields)
  also have "\<dots> = map (\<lambda>c. map (\<lambda>k. SelectionId c (firstIndex (columnKeys c) k))
                        (firstOccurrences (columnKeys c))) (map (\<lambda>l. cs ! l) [0..<length cs])"
    by (simp add: comp_def)
  finally show ?thesis by (simp add: map_nth)
qed

lemma built_children_keys:
  assumes l: "l < length cs" and k: "k \<in> set (columnKeys (cs ! l))"
  shows "map (\<lambda>c. value' (builtStore oi cs h c)) (children (builtStore oi cs h (oi, l, k))) =
         map (\<lambda>e. snd (snd e)) (filter (\<lambda>e. parentRef oi e = (oi, l, k)) (newLinks cs))"
  unfolding builtStore_fields(3) [OF l k] map_map comp_def
proof (rule map_cong)
  fix e assume "e \<in> set (filter (\<lambda>e. parentRef oi e = (oi, l, k)) (newLinks cs))"
  then have "e \<in> set (linkedEdges cs)" by (simp add: newLinks_def set_fo)
  from linkedEdges_facts [OF this]
  show "value' (builtStore oi cs h (childRef oi e)) = snd (snd e)"
    unfolding childRef_def by (simp add: builtStore_fields)
qed simp

lemma ne_empty_if_mem: "x \<in> S \<Longrightarrow> S \<noteq> {}"
  by blast

lemma find_key:
  "pk \<in> set xs \<Longrightarrow> (\<And>k. k \<in> set xs \<Longrightarrow> value' (g (f k)) = k) \<Longrightarrow>
   List.find (\<lambda>v. value' (g v) = pk) (map f xs) = Some (f pk)"
proof (induction xs)
  case Nil
  then show ?case by simp
next
  case (Cons x xs)
  then show ?case by (cases "x = pk") auto
qed

lemma build_levelled: "levelled (builtLevels oi cs) (builtStore oi cs h)"
  unfolding levelled_iff builtLevels_length
proof (intro allI impI ballI conjI)
  fix l a c
  assume l: "l < length cs" and a: "a \<in> set (level_values (builtLevels oi cs ! l))"
    and c: "c \<in> set (children (builtStore oi cs h a))"
  from a obtain k where k: "k \<in> set (columnKeys (cs ! l))" and ak: "a = (oi, l, k)"
    unfolding builtLevels_values [OF l] by (auto simp: set_fo)
  from c obtain e where e: "e \<in> set (newLinks cs)" "parentRef oi e = (oi, l, k)" "c = childRef oi e"
    unfolding ak builtStore_fields(3) [OF l k] by auto
  from e(1) have "e \<in> set (linkedEdges cs)" by (simp add: newLinks_def set_fo)
  from linkedEdges_facts [OF this] e(2) have s: "Suc l < length cs"
    and ck: "snd (snd e) \<in> set (columnKeys (cs ! Suc l))"
    by (simp_all add: parentRef_def)
  show "Suc l < length cs" by (rule s)
  show "c \<in> set (level_values (builtLevels oi cs ! Suc l))"
    unfolding builtLevels_values [OF s] using e(2,3) ck
    by (simp add: set_fo childRef_def parentRef_def)
next
  fix l a
  assume l: "l < length cs" and a: "a \<in> set (level_values (builtLevels oi cs ! l))"
    and t: "truthy (parentValue (builtStore oi cs h a))"
  from a obtain k where k: "k \<in> set (columnKeys (cs ! l))" and ak: "a = (oi, l, k)"
    unfolding builtLevels_values [OF l] by (auto simp: set_fo)
  let ?F = "filter (\<lambda>e. childRef oi e = (oi, l, k)) (newLinks cs)"
  from t have ne: "?F \<noteq> []"
    unfolding ak builtStore_fields(4) [OF l k] by (auto split: if_splits)
  then have pv: "parentValue (builtStore oi cs h a) = Some (fst (snd (last ?F)))"
    unfolding ak builtStore_fields(4) [OF l k] by simp
  from ne have "last ?F \<in> set ?F" by (rule last_in_set)
  then have e: "last ?F \<in> set (newLinks cs)" "childRef oi (last ?F) = (oi, l, k)" by simp_all
  let ?e = "last ?F"
  from e(1) have "?e \<in> set (linkedEdges cs)" by (simp add: newLinks_def set_fo)
  from linkedEdges_facts [OF this] e(2)
  have le: "l = Suc (fst ?e)" and pl: "fst ?e < length cs"
    and pk: "fst (snd ?e) \<in> set (columnKeys (cs ! fst ?e))"
    by (simp_all add: childRef_def)
  then have l1: "l - 1 = fst ?e" by simp
  show "0 < l" using le by simp
  have fnd: "List.find (\<lambda>v. value' (builtStore oi cs h v) = the (parentValue (builtStore oi cs h a)))
        (level_values (builtLevels oi cs ! (l - 1))) = Some (oi, fst ?e, fst (snd ?e))"
    unfolding pv l1 builtLevels_values [OF pl] option.sel
  proof (rule find_key)
    show "fst (snd ?e) \<in> set (firstOccurrences (columnKeys (cs ! fst ?e)))"
      using pk by (simp add: set_fo)
    show "value' (builtStore oi cs h (oi, fst ?e, k')) = k'"
      if "k' \<in> set (firstOccurrences (columnKeys (cs ! fst ?e)))" for k'
      using that by (simp add: set_fo builtStore_fields [OF pl])
  qed
  have "?e \<in> set (filter (\<lambda>e'. parentRef oi e' = (oi, fst ?e, fst (snd ?e))) (newLinks cs))"
    using e(1) by (simp add: parentRef_def)
  then have "set (filter (\<lambda>e'. parentRef oi e' = (oi, fst ?e, fst (snd ?e))) (newLinks cs)) \<noteq> {}"
    by (rule ne_empty_if_mem)
  then have "filter (\<lambda>e'. parentRef oi e' = (oi, fst ?e, fst (snd ?e))) (newLinks cs) \<noteq> []"
    unfolding set_empty .
  then have "children (builtStore oi cs h (oi, fst ?e, fst (snd ?e))) \<noteq> []"
    by (simp add: builtStore_fields(3) [OF pl pk])
  with fnd show "\<exists>p. List.find (\<lambda>v. value' (builtStore oi cs h v) = the (parentValue (builtStore oi cs h a)))
        (level_values (builtLevels oi cs ! (l - 1))) = Some p \<and> children (builtStore oi cs h p) \<noteq> []"
    by blast
next
  fix l a j
  assume l: "l < length cs" and a: "a \<in> set (level_values (builtLevels oi cs ! l))" and j: "j < l"
  then have jl: "j < length cs" by simp
  show "a \<notin> set (level_values (builtLevels oi cs ! j))"
    using a j unfolding builtLevels_values [OF l] builtLevels_values [OF jl] by auto
qed

section \<open>What a rebuild guarantees\<close>

text \<open>
  C7. For a standalone column, and for every level of a hierarchy, the builder leaves as
  many value nodes as the column has distinct canonical keys, a null or absent cell having
  the key (Blank); the keys of the nodes are the canonical keys in the order of their
  first occurrences; the identity of each node is the token minted for the column at the
  row of the first occurrence of its key; and the builder mints exactly these tokens, one
  per node, in node order.
\<close>

theorem dedup_first_occurrence:
  "(case buildSingle oi category (h, minted) of
      (nodes, h', minted') \<Rightarrow>
        deduplicated category nodes h' \<and> minted' = minted @ map (\<lambda>r. identity (h' r)) nodes) \<and>
   (case buildHierarchy oi categories (h, minted) of
      (levels, h', minted') \<Rightarrow>
        length levels = length categories \<and>
        (\<forall>l<length categories. deduplicated (categories ! l) (level_values (levels ! l)) h') \<and>
        minted' = minted @ concat (map (\<lambda>level. map (\<lambda>r. identity (h' r)) (level_values level)) levels))"
proof -
  let ?ks = "columnKeys category"
  let ?h' = "withLevel oi 0 category ?ks h"
  have f: "value' (?h' (oi, 0, k)) = k \<and> identity (?h' (oi, 0, k)) = SelectionId category (firstIndex ?ks k)"
    if "k \<in> set ?ks" for k
    using that by (simp add: withLevel_at freshValue_def)
  have d: "deduplicated category (map (\<lambda>k. (oi, 0, k)) (firstOccurrences ?ks)) ?h'"
    by (rule deduplicated_fresh) (rule f)
  have m: "map (\<lambda>r. identity (?h' r)) (map (\<lambda>k. (oi, 0, k)) (firstOccurrences ?ks)) =
           map (\<lambda>k. SelectionId category (firstIndex ?ks k)) (firstOccurrences ?ks)"
    unfolding map_map comp_def by (rule map_cong) (simp_all add: set_fo f)
  show ?thesis
    unfolding buildSingle_closed buildHierarchy_closed prod.case m built_minted
    using d built_level_deduplicated by (simp add: builtLevels_length)
qed

text \<open>
  The witness: the standalone column with the cells North, null, North gives the nodes
  North and (Blank), with the tokens of the rows 0 and 1; the second level of the
  hierarchy with the cells Paris, null, Paris, null gives the nodes Paris and (Blank).
\<close>

theorem dedup_first_occurrence_witness:
  "(case buildSingle 0 colRegion (emptyStore, []) of
      (nodes, h', minted') \<Rightarrow>
        deduplicated colRegion nodes h' \<and>
        map (\<lambda>r. value' (h' r)) nodes = [''North'', ''(Blank)''] \<and>
        map (\<lambda>r. identity (h' r)) nodes = [SelectionId colRegion 0, SelectionId colRegion 1] \<and>
        minted' = [SelectionId colRegion 0, SelectionId colRegion 1]) \<and>
   (case buildHierarchy 0 [colCountry, colCity] (emptyStore, []) of
      (levels, h', minted') \<Rightarrow>
        length levels = 2 \<and>
        deduplicated colCountry (level_values (levels ! 0)) h' \<and>
        deduplicated colCity (level_values (levels ! 1)) h' \<and>
        map (\<lambda>r. value' (h' r)) (level_values (levels ! 1)) = [''Paris'', ''(Blank)''] \<and>
        map (\<lambda>r. identity (h' r)) (level_values (levels ! 1)) =
          [SelectionId colCity 0, SelectionId colCity 1] \<and>
        minted' = [SelectionId colCountry 0, SelectionId colCountry 2,
                   SelectionId colCity 0, SelectionId colCity 1])"
proof -
  have l: "(0::nat) < length [colCountry, colCity]" "(1::nat) < length [colCountry, colCity]"
    by simp_all
  from dedup_first_occurrence [where oi = 0 and category = colRegion and h = emptyStore
      and minted = "[]" and categories = "[colCountry, colCity]"] l
  have general:
    "deduplicated colRegion (fst (buildSingle 0 colRegion (emptyStore, [])))
       (fst (snd (buildSingle 0 colRegion (emptyStore, [])))) \<and>
     deduplicated colCountry
       (level_values (fst (buildHierarchy 0 [colCountry, colCity] (emptyStore, [])) ! 0))
       (fst (snd (buildHierarchy 0 [colCountry, colCity] (emptyStore, [])))) \<and>
     deduplicated colCity
       (level_values (fst (buildHierarchy 0 [colCountry, colCity] (emptyStore, [])) ! 1))
       (fst (snd (buildHierarchy 0 [colCountry, colCity] (emptyStore, []))))"
    by (auto simp: split_beta)
  have single:
    "map (\<lambda>r. value' (fst (snd (buildSingle 0 colRegion (emptyStore, []))) r))
       (fst (buildSingle 0 colRegion (emptyStore, []))) = [''North'', ''(Blank)'']"
    "map (\<lambda>r. identity (fst (snd (buildSingle 0 colRegion (emptyStore, []))) r))
       (fst (buildSingle 0 colRegion (emptyStore, []))) =
       [SelectionId colRegion 0, SelectionId colRegion 1]"
    "snd (snd (buildSingle 0 colRegion (emptyStore, []))) =
       [SelectionId colRegion 0, SelectionId colRegion 1]"
    by code_simp+
  have hier:
    "length (fst (buildHierarchy 0 [colCountry, colCity] (emptyStore, []))) = 2"
    "map (\<lambda>r. value' (fst (snd (buildHierarchy 0 [colCountry, colCity] (emptyStore, []))) r))
       (level_values (fst (buildHierarchy 0 [colCountry, colCity] (emptyStore, [])) ! 1)) =
       [''Paris'', ''(Blank)'']"
    "map (\<lambda>r. identity (fst (snd (buildHierarchy 0 [colCountry, colCity] (emptyStore, []))) r))
       (level_values (fst (buildHierarchy 0 [colCountry, colCity] (emptyStore, [])) ! 1)) =
       [SelectionId colCity 0, SelectionId colCity 1]"
    "snd (snd (buildHierarchy 0 [colCountry, colCity] (emptyStore, []))) =
       [SelectionId colCountry 0, SelectionId colCountry 2, SelectionId colCity 0, SelectionId colCity 1]"
    by code_simp+
  from general single hier show ?thesis by (simp add: split_beta)
qed

text \<open>
  C8, as stated, fails: the parent key is written only by a link step that appends the
  child, not by every step whose lookups succeed. With the rows (A, x), (B, x), (A, x) the
  last row finds both A and x, and x is a child of A, yet the parent key of x stays B.
\<close>

theorem parentKey_counterexample:
  "parentValue (fst (snd (processData [] [colParent, colChild])) (0, 1, ''x'')) = Some ''B''
   \<and> stringValue (cellAt colParent 2) = ''A'' \<and> stringValue (cellAt colChild 2) = ''x''
   \<and> children (fst (snd (processData [] [colParent, colChild])) (0, 0, ''A'')) = [(0, 1, ''x'')]"
  by code_simp

text \<open>
  C8, amended. After the linking pass, for every value of every level of the hierarchy,
  the keys of its children are distinct, and its parent key is the parent key of the last
  new link to it: a link is new where the row scan meets its level, parent key and child
  key for the first time (these are the steps that append the child), and a value that no
  link reaches has no parent key.
\<close>

theorem links_last_new_edge:
  "case buildHierarchy oi categories (h, minted) of
     (levels, h', minted') \<Rightarrow>
       (\<forall>l<length levels. \<forall>p\<in>set (level_values (levels ! l)).
          distinct (map (\<lambda>c. value' (h' c)) (children (h' p))) \<and>
          parentValue (h' p) = lastLinkedParent categories l (value' (h' p)))"
proof -
  have "distinct (map (\<lambda>c. value' (builtStore oi categories h c)) (children (builtStore oi categories h p))) \<and>
        parentValue (builtStore oi categories h p) =
          lastLinkedParent categories l (value' (builtStore oi categories h p))"
    if l: "l < length categories" and p: "p \<in> set (level_values (builtLevels oi categories ! l))" for l p
  proof -
    from p obtain k where k: "k \<in> set (columnKeys (categories ! l))" and pk: "p = (oi, l, k)"
      unfolding builtLevels_values [OF l] by (auto simp: set_fo)
    have inj: "inj_on (\<lambda>e. snd (snd e)) (set (filter (\<lambda>e. parentRef oi e = (oi, l, k)) (newLinks categories)))"
    proof (rule inj_onI)
      fix x y
      assume "x \<in> set (filter (\<lambda>e. parentRef oi e = (oi, l, k)) (newLinks categories))"
        "y \<in> set (filter (\<lambda>e. parentRef oi e = (oi, l, k)) (newLinks categories))"
        "snd (snd x) = snd (snd y)"
      then have "parentRef oi x = parentRef oi y" "snd (snd x) = snd (snd y)" by simp_all
      then show "x = y" by (rule edge_eqI)
    qed
    have "distinct (filter (\<lambda>e. parentRef oi e = (oi, l, k)) (newLinks categories))"
      by (simp add: newLinks_def distinct_fo)
    with inj have d: "distinct (map (\<lambda>e. snd (snd e)) (filter (\<lambda>e. parentRef oi e = (oi, l, k)) (newLinks categories)))"
      by (simp add: distinct_map)
    have same: "(\<lambda>e. childRef oi e = (oi, l, k)) = (\<lambda>e. Suc (fst e) = l \<and> snd (snd e) = k)"
      by (rule ext) (simp add: childRef_def)
    have pv: "parentValue (builtStore oi categories h (oi, l, k)) = lastLinkedParent categories l k"
      unfolding builtStore_fields(4) [OF l k] lastLinkedParent_def same
      by (simp split: list.split)
    show ?thesis
      unfolding pk built_children_keys [OF l k] using d pv
      by (simp add: builtStore_fields [OF l k])
  qed
  then show ?thesis
    unfolding buildHierarchy_closed prod.case by (simp add: builtLevels_length)
qed

text \<open>The witness: with the rows (A, x), (B, x), (A, x) the parent key of x is B.\<close>

theorem links_last_new_edge_witness:
  "parentValue (fst (snd (buildHierarchy 0 [colParent, colChild] (emptyStore, []))) (0, 1, ''x'')) =
     Some ''B''"
proof -
  let ?R = "buildHierarchy 0 [colParent, colChild] (emptyStore, [])"
  have l: "(1::nat) < length (fst ?R)" by code_simp
  have p: "(0, 1, ''x'') \<in> set (level_values (fst ?R ! 1))" by code_simp
  have v: "value' (fst (snd ?R) (0, 1, ''x'')) = ''x''" by code_simp
  have k: "lastLinkedParent [colParent, colChild] 1 ''x'' = Some ''B''" by code_simp
  from links_last_new_edge [where oi = 0 and categories = "[colParent, colChild]" and h = emptyStore
      and minted = "[]"] l p
  have "parentValue (fst (snd ?R) (0, 1, ''x'')) =
      lastLinkedParent [colParent, colChild] 1 (value' (fst (snd ?R) (0, 1, ''x'')))"
    by (auto simp: split_beta)
  then show ?thesis unfolding v k .
qed

section \<open>Rebuilt hierarchies are levelled\<close>

text \<open>
  The shape assumed of a hierarchy in the properties of the state machine is the shape that
  a rebuild gives every hierarchy, and a toggle keeps it.
\<close>

lemma levelled_agree:
  assumes eq: "\<And>l a. l < length ls \<Longrightarrow> a \<in> set (level_values (ls ! l)) \<Longrightarrow> g a = h a"
    and lv: "levelled ls h"
  shows "levelled ls g"
  unfolding levelled_iff
proof (intro allI impI ballI conjI)
  fix l a c
  assume l: "l < length ls" and a: "a \<in> set (level_values (ls ! l))"
    and c: "c \<in> set (children (g a))"
  then have "c \<in> set (children (h a))" using eq by simp
  from levelled_children [OF lv l a this]
  show "Suc l < length ls" "c \<in> set (level_values (ls ! Suc l))" by simp_all
next
  fix l a
  assume l: "l < length ls" and a: "a \<in> set (level_values (ls ! l))"
    and t: "truthy (parentValue (g a))"
  have ga: "g a = h a" using eq l a by simp
  from t have "truthy (parentValue (h a))" by (simp add: ga)
  from levelled_parent [OF lv l a this] obtain p where l0: "0 < l"
    and f: "List.find (\<lambda>v. value' (h v) = the (parentValue (h a))) (level_values (ls ! (l - 1))) = Some p"
    and ch: "children (h p) \<noteq> []" by blast
  have l1: "l - 1 < length ls" using l by simp
  have fg: "List.find (\<lambda>v. value' (g v) = the (parentValue (g a))) (level_values (ls ! (l - 1))) =
            List.find (\<lambda>v. value' (h v) = the (parentValue (h a))) (level_values (ls ! (l - 1)))"
    by (rule find_cong) (simp_all add: ga eq [OF l1])
  have "p \<in> set (level_values (ls ! (l - 1)))" using f by (rule find_Some_mem)
  then have "children (g p) \<noteq> []" using ch eq [OF l1] by simp
  then show "0 < l" and "\<exists>p. List.find (\<lambda>v. value' (g v) = the (parentValue (g a)))
      (level_values (ls ! (l - 1))) = Some p \<and> children (g p) \<noteq> []"
    using l0 f fg by simp_all
next
  fix l a j
  assume "l < length ls" "a \<in> set (level_values (ls ! l))" "j < l"
  then show "a \<notin> set (level_values (ls ! j))" using lv unfolding levelled_iff by blast
qed

lemma withLevel_other: "fst r \<noteq> oi \<Longrightarrow> withLevel oi l category ks h r = h r"
  by (simp add: withLevel_def)

lemma allLevelled_frame:
  assumes inv: "allLevelled i cats h" and fr: "\<And>r. fst r < i \<Longrightarrow> g r = h r"
  shows "allLevelled (Suc i) cats g"
  unfolding allLevelled_def
proof (intro ballI allI impI conjI)
  fix cat ls
  assume c: "cat \<in> set cats" and ls: "hierarchyLevels cat = Some ls"
  from inv c ls have lv: "levelled ls h"
    and b: "\<And>l a. l < length ls \<Longrightarrow> a \<in> set (level_values (ls ! l)) \<Longrightarrow> fst a < i"
    unfolding allLevelled_def by blast+
  show "levelled ls g"
    by (rule levelled_agree [OF _ lv]) (simp add: fr b)
  fix l a
  assume "l < length ls" "a \<in> set (level_values (ls ! l))"
  from b [OF this] show "fst a < Suc i" by simp
qed

lemma frame_single:
  assumes inv: "allLevelled i cats h"
  shows "allLevelled (Suc i) cats (withLevel i 0 category (columnKeys category) h)"
  by (rule allLevelled_frame [OF inv]) (simp add: withLevel_other)

lemma frame_hierarchy:
  assumes inv: "allLevelled i cats h"
  shows "allLevelled (Suc i) cats (builtStore i categories h)"
  by (rule allLevelled_frame [OF inv]) (simp add: builtStore_other)

lemma allLevelled_snoc_single:
  "allLevelled i cats h \<Longrightarrow> hierarchyLevels cat = None \<Longrightarrow> allLevelled i (cats @ [cat]) h"
  unfolding allLevelled_def by auto

lemma allLevelled_snoc_hierarchy:
  assumes "allLevelled i cats h" "hierarchyLevels cat = Some ls" "levelled ls h"
    "\<And>l a. l < length ls \<Longrightarrow> a \<in> set (level_values (ls ! l)) \<Longrightarrow> fst a < i"
  shows "allLevelled i (cats @ [cat]) h"
  unfolding allLevelled_def
proof (intro ballI allI impI)
  fix c ms
  assume c: "c \<in> set (cats @ [cat])" and m: "hierarchyLevels c = Some ms"
  show "levelled ms h \<and> (\<forall>l<length ms. \<forall>a\<in>set (level_values (ms ! l)). fst a < i)"
  proof (cases "c = cat")
    case True
    with m assms(2) have "ms = ls" by simp
    then show ?thesis using assms(3,4) by blast
  next
    case False
    with c have "c \<in> set cats" by simp
    with assms(1) m show ?thesis unfolding allLevelled_def by blast
  qed
qed

lemma processItem_single:
  "processItem old (SingleItem name index category, i) (cats, h, minted) =
     (cats @ [\<lparr>cat_name = orElse (displayName category) (''Filter '' @ decimal (i + 1)),
                cat_displayName = orElse (displayName category) (''Filter '' @ decimal (i + 1)),
                cat_values = map (\<lambda>k. (i, 0, k)) (firstOccurrences (columnKeys category)),
                isHierarchy = False, hierarchyLevels = None, cat_order = i,
                collapsed = collapsedState old (orElse (displayName category) (''Filter '' @ decimal (i + 1)))\<rparr>],
      withLevel i 0 category (columnKeys category) h,
      minted @ map (\<lambda>k. SelectionId category (firstIndex (columnKeys category) k))
                 (firstOccurrences (columnKeys category)))"
  by (simp only: processItem.simps Let_def buildSingle_closed fst_conv snd_conv)

lemma processItem_hierarchy:
  "processItem old (HierarchyItem name index categories, i) (cats, h, minted) =
     (cats @ [\<lparr>cat_name = name, cat_displayName = name, cat_values = [], isHierarchy = True,
                hierarchyLevels = Some (builtLevels i categories), cat_order = i,
                collapsed = collapsedState old name\<rparr>],
      builtStore i categories h,
      minted @ concat (map (\<lambda>c. map (\<lambda>k. SelectionId c (firstIndex (columnKeys c) k))
                                   (firstOccurrences (columnKeys c))) categories))"
  by (simp only: processItem.simps Let_def buildHierarchy_closed fst_conv snd_conv)

lemma processItem_levelled:
  assumes inv: "allLevelled i cats h"
  shows "allLevelled (Suc i) (fst (processItem old (item, i) (cats, h, minted)))
           (fst (snd (processItem old (item, i) (cats, h, minted))))"
proof (cases item)
  case (SingleItem name index category)
  show ?thesis
    unfolding SingleItem processItem_single fst_conv snd_conv
    by (rule allLevelled_snoc_single [OF frame_single [OF inv]]) simp
next
  case (HierarchyItem name index categories)
  show ?thesis
    unfolding HierarchyItem processItem_hierarchy fst_conv snd_conv
  proof (rule allLevelled_snoc_hierarchy [OF frame_hierarchy [OF inv]])
    show "hierarchyLevels \<lparr>cat_name = name, cat_displayName = name, cat_values = [], isHierarchy = True,
                hierarchyLevels = Some (builtLevels i categories), cat_order = i,
                collapsed = collapsedState old name\<rparr> = Some (builtLevels i categories)" by simp
    show "levelled (builtLevels i categories) (builtStore i categories h)" by (rule build_levelled)
    show "fst a < Suc i"
      if "l < length (builtLevels i categories)" "a \<in> set (level_values (builtLevels i categories ! l))" for l a
      using that by (auto simp: builtLevels_length builtLevels_values)
  qed
qed

lemma processItems_levelled:
  "allLevelled (length items)
     (fst (fold (processItem old) (zip items [0..<length items]) ([], emptyStore, [])))
     (fst (snd (fold (processItem old) (zip items [0..<length items]) ([], emptyStore, []))))"
proof (induction items rule: rev_induct)
  case Nil
  then show ?case by (simp add: allLevelled_def)
next
  case (snoc item items)
  let ?s = "fold (processItem old) (zip items [0..<length items]) ([], emptyStore, [])"
  have z: "zip (items @ [item]) [0..<length (items @ [item])] =
           zip items [0..<length items] @ [(item, length items)]" by simp
  have s: "?s = (fst ?s, fst (snd ?s), snd (snd ?s))" by simp
  have step: "fold (processItem old) (zip (items @ [item]) [0..<length (items @ [item])]) ([], emptyStore, []) =
      processItem old (item, length items) (fst ?s, fst (snd ?s), snd (snd ?s))"
    unfolding z fold_append comp_def by simp
  have "allLevelled (Suc (length items))
      (fst (processItem old (item, length items) (fst ?s, fst (snd ?s), snd (snd ?s))))
      (fst (snd (processItem old (item, length items) (fst ?s, fst (snd ?s), snd (snd ?s)))))"
    by (rule processItem_levelled [OF snoc])
  then show ?case unfolding step by simp
qed

lemma processData_levelled:
  assumes "cat \<in> set (fst (processData old categories))"
    and "hierarchyLevels cat = Some ls"
  shows "levelled ls (fst (snd (processData old categories)))"
  using processItems_levelled [of "groupCategories categories" old] assms
  unfolding processData_def Let_def allLevelled_def by blast

lemma toggle_keeps_levelled:
  assumes "hierarchyLevels category = Some ls" "levelled ls h" "i < length ls"
    "n \<in> set (level_values (ls ! i))"
    "toggleHierarchyValue cats h n category = Some (h', e)"
  shows "sameShape h' h \<and> levelled ls h'"
proof -
  from toggle_result [OF assms(1-4), of cats] assms(5) have s: "sameShape h' h" by auto
  then show ?thesis using levelled_shape [OF s assms(2)] by simp
qed

end
